theory Spec2Isabelle
  imports Complex_Main
begin

chapter \<open>The programs\<close>

section \<open>Values read from the JSON artifacts\<close>

text \<open>
  The report scripts read their inputs with \<^verbatim>\<open>json.load\<close>. A loaded value is
  \<^verbatim>\<open>None\<close>, a bool, an int, a float, a str, a list or a dict with string keys; a dict
  keeps its keys in insertion order, so it is an association list here (its keys are
  distinct in Python). Numbers are taken in exact arithmetic: a Python float is a
  \<^typ>\<open>real\<close>, and the rounding of IEEE doubles is not part of the model.
\<close>

datatype py_error =
    TypeError | ValueError | IndexError | ZeroDivisionError | AttributeError | OverflowError

datatype json =
    JNull
  | JBool bool
  | JInt int
  | JFloat real
  | JStr string
  | JList "json list"
  | JObj "(string \<times> json) list"

type_synonym str_parser = "string \<Rightarrow> real option"

text \<open>
  \<^verbatim>\<open>float(v)\<close>: a float is returned as it is; an int converts unless it is too large
  for a double, which raises OverflowError (the largest double is \<open>2^1024 - 2^971\<close>, and
  an int rounds to a double up to, and not including, \<open>2^1024 - 2^970\<close>); a bool is 0
  or 1; a str goes through Python's own parser (a parameter \<open>sf\<close> of the model, \<open>None\<close>
  where Python raises ValueError); anything else raises TypeError.
\<close>

definition float_limit :: int where
  "float_limit = 2 ^ 1024 - 2 ^ 970"

fun py_float :: "str_parser \<Rightarrow> json \<Rightarrow> py_error + real" where
  "py_float sf (JInt i) = (if float_limit \<le> \<bar>i\<bar> then Inl OverflowError else Inr (of_int i))"
| "py_float sf (JFloat x) = Inr x"
| "py_float sf (JBool b) = Inr (if b then 1 else 0)"
| "py_float sf (JStr s) = (case sf s of None \<Rightarrow> Inl ValueError | Some x \<Rightarrow> Inr x)"
| "py_float sf JNull = Inl TypeError"
| "py_float sf (JList xs) = Inl TypeError"
| "py_float sf (JObj m) = Inl TypeError"

text \<open>\<^verbatim>\<open>[float(v) for v in values]\<close>: the first element that raises ends the comprehension.\<close>

fun float_list :: "str_parser \<Rightarrow> json list \<Rightarrow> py_error + real list" where
  "float_list sf [] = Inr []"
| "float_list sf (v # vs) =
     (case py_float sf v of
        Inl e \<Rightarrow> Inl e
      | Inr x \<Rightarrow> (case float_list sf vs of Inl e \<Rightarrow> Inl e | Inr xs \<Rightarrow> Inr (x # xs)))"

text \<open>\<^verbatim>\<open>d.get(key)\<close> on a dict: the value, or \<^verbatim>\<open>None\<close> for a missing key.\<close>

definition dict_get :: "(string \<times> json) list \<Rightarrow> string \<Rightarrow> json" where
  "dict_get m key = (case map_of m key of None \<Rightarrow> JNull | Some v \<Rightarrow> v)"

text \<open>\<^verbatim>\<open>d[key] = v\<close> on an insertion-ordered dict.\<close>

fun dict_set :: "('k \<times> 'v) list \<Rightarrow> 'k \<Rightarrow> 'v \<Rightarrow> ('k \<times> 'v) list" where
  "dict_set [] k v = [(k, v)]"
| "dict_set ((k', v') # m) k v =
     (if k' = k then (k, v) # m else (k', v') # dict_set m k v)"

text \<open>\<^verbatim>\<open>sep.join(parts)\<close>.\<close>

fun join :: "string \<Rightarrow> string list \<Rightarrow> string" where
  "join sep [] = []"
| "join sep [x] = x"
| "join sep (x # y # ys) = x @ sep @ join sep (y # ys)"

fun is_list :: "json \<Rightarrow> bool" where
  "is_list (JList xs) = True"
| "is_list v = False"

text \<open>A numeric JSON value (an int or a float), and the number it stands for.\<close>

fun is_number :: "json \<Rightarrow> bool" where
  "is_number (JInt i) = True"
| "is_number (JFloat x) = True"
| "is_number v = False"

fun num_val :: "json \<Rightarrow> real" where
  "num_val (JInt i) = of_int i"
| "num_val (JFloat x) = x"
| "num_val v = 0"

section \<open>Accuracy histories: \<^verbatim>\<open>_normalize_acc_history\<close>\<close>

text \<open>
  The loop \<^verbatim>\<open>for key in ['readout', 'proto']\<close> of the mapping branch: a key whose value
  is a list adds a series under that key.
\<close>

fun collect_series ::
  "str_parser \<Rightarrow> (string \<times> json) list \<Rightarrow> string list \<Rightarrow> (string \<times> real list) list
   \<Rightarrow> py_error + (string \<times> real list) list" where
  "collect_series sf m [] series = Inr series"
| "collect_series sf m (key # keys) series =
     (case dict_get m key of
        JList vs \<Rightarrow>
          (case float_list sf vs of
             Inl e \<Rightarrow> Inl e
           | Inr fs \<Rightarrow> collect_series sf m keys (dict_set series key fs))
      | _ \<Rightarrow> collect_series sf m keys series)"

text \<open>
  \<^verbatim>\<open>if not series and isinstance(samples, list): series['readout'] = [...]\<close>
\<close>

definition samples_fallback ::
  "str_parser \<Rightarrow> (string \<times> json) list \<Rightarrow> (string \<times> real list) list
   \<Rightarrow> py_error + (string \<times> real list) list" where
  "samples_fallback sf m series =
     (case dict_get m ''samples'' of
        JList vs \<Rightarrow>
          (if series = [] then
             (case float_list sf vs of
                Inl e \<Rightarrow> Inl e
              | Inr fs \<Rightarrow> Inr (dict_set series ''readout'' fs))
           else Inr series)
      | _ \<Rightarrow> Inr series)"

type_synonym acc_result = "(string \<times> real list) list option \<times> string option"

text \<open>
  The function returns a pair (series or \<^verbatim>\<open>None\<close>, diagnostic or \<^verbatim>\<open>None\<close>), or
  raises out of \<^verbatim>\<open>float\<close>.
\<close>

fun normalize_acc_history :: "str_parser \<Rightarrow> json \<Rightarrow> py_error + acc_result" where
  "normalize_acc_history sf JNull = Inr (None, Some ''missing'')"
| "normalize_acc_history sf (JList vs) =
     (case float_list sf vs of
        Inl e \<Rightarrow> Inl e
      | Inr fs \<Rightarrow> Inr (Some [(''readout'', fs)], None))"
| "normalize_acc_history sf (JObj m) =
     (case collect_series sf m [''readout'', ''proto''] [] of
        Inl e \<Rightarrow> Inl e
      | Inr series0 \<Rightarrow>
          (case samples_fallback sf m series0 of
             Inl e \<Rightarrow> Inl e
           | Inr series \<Rightarrow>
               (if series \<noteq> [] then Inr (Some series, None)
                else Inr (None, Some (''unknown keys: '' @ join '', '' (map fst m))))))"
| "normalize_acc_history sf v = Inr (None, Some ''unsupported format'')"

text \<open>
  For the statements below: the values \<^verbatim>\<open>float\<close> accepts (an int within the range of a
  double, a float, a bool, a str that parses) and the number it returns for them; the
  series a recognised key contributes; and the condition that \<^verbatim>\<open>float\<close> accepts every
  element of a value that is a list.
\<close>

fun float_ok :: "str_parser \<Rightarrow> json \<Rightarrow> bool" where
  "float_ok sf (JInt i) = (\<bar>i\<bar> < float_limit)"
| "float_ok sf (JFloat x) = True"
| "float_ok sf (JBool b) = True"
| "float_ok sf (JStr s) = (sf s \<noteq> None)"
| "float_ok sf v = False"

fun float_val :: "str_parser \<Rightarrow> json \<Rightarrow> real" where
  "float_val sf (JInt i) = of_int i"
| "float_val sf (JFloat x) = x"
| "float_val sf (JBool b) = (if b then 1 else 0)"
| "float_val sf (JStr s) = (case sf s of None \<Rightarrow> 0 | Some x \<Rightarrow> x)"
| "float_val sf v = 0"

definition series_of :: "str_parser \<Rightarrow> string \<Rightarrow> json \<Rightarrow> (string \<times> real list) list" where
  "series_of sf key v = (case v of JList vs \<Rightarrow> [(key, map (float_val sf) vs)] | _ \<Rightarrow> [])"

fun floatable_list :: "str_parser \<Rightarrow> json \<Rightarrow> bool" where
  "floatable_list sf (JList vs) = list_all (float_ok sf) vs"
| "floatable_list sf v = True"

section \<open>Smoothing and the accuracy-history plot\<close>

text \<open>
  \<^verbatim>\<open>np.convolve(a, v, mode='same')\<close>. The full discrete convolution of \<open>a\<close> and \<open>v\<close> has
  \<open>length a + length v - 1\<close> entries, entry \<open>k\<close> being the sum of \<open>a[i] * v[k - i]\<close>;
  mode \<^verbatim>\<open>same\<close> keeps the \<open>max (length a) (length v)\<close> central ones, which start
  at index \<open>(min (length a) (length v) - 1) div 2\<close>. An empty argument raises
  ValueError.
\<close>

definition conv_full :: "real list \<Rightarrow> real list \<Rightarrow> real list" where
  "conv_full a v =
     map (\<lambda>k. sum_list (map (\<lambda>i. if i \<le> k \<and> k - i < length v then a ! i * v ! (k - i) else 0)
                              [0..<length a]))
         [0..<length a + length v - 1]"

definition np_convolve_same :: "real list \<Rightarrow> real list \<Rightarrow> py_error + real list" where
  "np_convolve_same a v =
     (if a = [] \<or> v = [] then Inl ValueError
      else Inr (take (max (length a) (length v))
                  (drop ((min (length a) (length v) - 1) div 2) (conv_full a v))))"

text \<open>
  \<^verbatim>\<open>_smooth(values, window)\<close>: short series and windows of at most 1 are returned as
  they are; otherwise the series is convolved with the boxcar kernel
  \<^verbatim>\<open>np.ones(window) / window\<close>.
\<close>

definition smooth :: "real list \<Rightarrow> int \<Rightarrow> py_error + real list" where
  "smooth values window =
     (if length values < 3 \<or> window \<le> 1 then Inr values
      else np_convolve_same values (replicate (nat window) (1 / of_int window)))"

text \<open>
  What \<^verbatim>\<open>_plot_history_series\<close> draws. A call of \<^verbatim>\<open>ax.plot\<close> is a line with its label,
  its x and y data and its line style (dashed for \<^verbatim>\<open>linestyle='--'\<close>); the figure
  collects the lines in the order of the calls, with the title and whether a legend is
  drawn. Colours, axis labels and the files written by \<^verbatim>\<open>save_figure\<close> are left out.
\<close>

record line =
  line_label :: string
  line_xs :: "nat list"
  line_ys :: "real list"
  line_dashed :: bool

record figure =
  fig_lines :: "line list"
  fig_title :: string
  fig_legend :: bool

text \<open>The loop \<^verbatim>\<open>for label, values in series.items()\<close>, \<open>drawn\<close> being the lines so far.\<close>

fun history_lines :: "(string \<times> real list) list \<Rightarrow> line list \<Rightarrow> py_error + line list" where
  "history_lines [] drawn = Inr drawn"
| "history_lines ((label, values) # rest) drawn =
     (if values = [] then history_lines rest drawn
      else
        let xs = [0..<length values];
            drawn1 = drawn @ [\<lparr>line_label = label, line_xs = xs, line_ys = values,
                               line_dashed = False\<rparr>]
        in if 10 \<le> length values then
             (case smooth values (min 25 (max 3 (int (length values) div 8))) of
                Inl e \<Rightarrow> Inl e
              | Inr smoothed \<Rightarrow>
                  history_lines rest
                    (drawn1 @ [\<lparr>line_label = label @ '' (smoothed)'', line_xs = xs,
                                line_ys = smoothed, line_dashed = True\<rparr>]))
           else history_lines rest drawn1)"

definition plot_history_series :: "(string \<times> real list) list \<Rightarrow> string \<Rightarrow> py_error + figure" where
  "plot_history_series series title =
     (case history_lines series [] of
        Inl e \<Rightarrow> Inl e
      | Inr drawn \<Rightarrow>
          Inr \<lparr>fig_lines = drawn, fig_title = title, fig_legend = (1 < length series)\<rparr>)"

text \<open>
  For the statements below: the moving average the overlay of a series is expected to
  hold, a boxcar window of \<open>w\<close> samples centred as \<^verbatim>\<open>mode='same'\<close> centres it, and the
  window-size policy in the words of the specification.
\<close>

definition boxcar :: "nat \<Rightarrow> real list \<Rightarrow> real list" where
  "boxcar w values =
     take (max (length values) w)
       (drop ((min (length values) w - 1) div 2) (conv_full values (replicate w (1 / real w))))"

definition window_policy :: "nat \<Rightarrow> nat" where
  "window_policy n = min 25 (max 3 (n div 8))"

definition overlay_of :: "string \<times> real list \<Rightarrow> line" where
  "overlay_of s =
     \<lparr>line_label = fst s @ '' (smoothed)'', line_xs = [0..<length (snd s)],
      line_ys = boxcar (window_policy (length (snd s))) (snd s), line_dashed = True\<rparr>"

section \<open>Perturbation recovery: the similarity curves\<close>

text \<open>
  \<^verbatim>\<open>d.get(key, default)\<close>: only a dict has the method (AttributeError otherwise), and
  the default stands for a missing key only, not for a key bound to \<^verbatim>\<open>None\<close>.
\<close>

fun py_get :: "json \<Rightarrow> string \<Rightarrow> json \<Rightarrow> py_error + json" where
  "py_get (JObj m) key dflt = Inr (case map_of m key of None \<Rightarrow> dflt | Some v \<Rightarrow> v)"
| "py_get v key dflt = Inl AttributeError"

text \<open>Truth value of a loaded value, as \<^verbatim>\<open>if not similarity\<close> tests it.\<close>

fun py_truthy :: "json \<Rightarrow> bool" where
  "py_truthy JNull = False"
| "py_truthy (JBool b) = b"
| "py_truthy (JInt i) = (i \<noteq> 0)"
| "py_truthy (JFloat x) = (x \<noteq> 0)"
| "py_truthy (JStr s) = (s \<noteq> [])"
| "py_truthy (JList xs) = (xs \<noteq> [])"
| "py_truthy (JObj m) = (m \<noteq> [])"

text \<open>
  The elements a \<^verbatim>\<open>for v in similarity\<close> runs over: those of a list, the characters
  of a str, the keys of a dict; a number or a bool is not iterable (TypeError).
\<close>

fun py_iter :: "json \<Rightarrow> py_error + json list" where
  "py_iter (JList xs) = Inr xs"
| "py_iter (JStr s) = Inr (map (\<lambda>c. JStr [c]) s)"
| "py_iter (JObj m) = Inr (map (\<lambda>kv. JStr (fst kv)) m)"
| "py_iter v = Inl TypeError"

text \<open>
  An entry of a float array: \<^verbatim>\<open>np.nan\<close>, an infinity or a number. (A str that Python
  parses to nan or to an infinity is outside the model, see \<open>py_float\<close>.)
\<close>

datatype npfloat = NaN | PosInf | NegInf | Num real

text \<open>\<^verbatim>\<open>np.nan if v is None else float(v)\<close>, and the comprehension over it.\<close>

fun nan_or_float :: "str_parser \<Rightarrow> json \<Rightarrow> py_error + npfloat" where
  "nan_or_float sf JNull = Inr NaN"
| "nan_or_float sf v = (case py_float sf v of Inl e \<Rightarrow> Inl e | Inr x \<Rightarrow> Inr (Num x))"

fun nan_or_float_list :: "str_parser \<Rightarrow> json list \<Rightarrow> py_error + npfloat list" where
  "nan_or_float_list sf [] = Inr []"
| "nan_or_float_list sf (v # vs) =
     (case nan_or_float sf v of
        Inl e \<Rightarrow> Inl e
      | Inr x \<Rightarrow> (case nan_or_float_list sf vs of Inl e \<Rightarrow> Inl e | Inr xs \<Rightarrow> Inr (x # xs)))"

record curve =
  curve_label :: string
  curve_xs :: "nat list"
  curve_ys :: "npfloat list"

text \<open>\<^verbatim>\<open>summary.get('similarityByOffset', {}).get('mean', [])\<close>\<close>

definition similarity_mean :: "json \<Rightarrow> py_error + json" where
  "similarity_mean summary =
     (case py_get summary ''similarityByOffset'' (JObj []) of
        Inl e \<Rightarrow> Inl e
      | Inr by_offset \<Rightarrow> py_get by_offset ''mean'' (JList []))"

text \<open>
  What the first figure of \<^verbatim>\<open>plot_perturbation_sets\<close> is drawn from: the curves handed to
  \<^verbatim>\<open>ax.plot\<close>, in the order of the calls; the parts of the line under the title, one
  per plotted summary (its label with the \<^verbatim>\<open>kind\<close> and \<^verbatim>\<open>atStep\<close> of its
  configuration, as read, before they are formatted); and the right end of the shaded
  perturbation window, when there is one. The calls into the charting library are
  taken to accept what they are given.
\<close>

type_synonym title_part = "string \<times> json \<times> json"

record similarity_figure =
  sim_curves :: "curve list"
  sim_title_parts :: "title_part list"
  sim_window :: "real option"

text \<open>
  The loop \<^verbatim>\<open>for label, summary in summaries\<close> over the loaded summaries with their
  labels; the state is the pair of the curves plotted and the title parts collected so
  far. A summary with no similarities is skipped before its configuration is read.
\<close>

fun similarity_curves ::
  "str_parser \<Rightarrow> (string \<times> json) list \<Rightarrow> curve list \<times> title_part list
   \<Rightarrow> py_error + curve list \<times> title_part list" where
  "similarity_curves sf [] st = Inr st"
| "similarity_curves sf ((label, summary) # rest) st =
     (case similarity_mean summary of
        Inl e \<Rightarrow> Inl e
      | Inr similarity \<Rightarrow>
          (if \<not> py_truthy similarity then similarity_curves sf rest st
           else
             (case py_iter similarity of
                Inl e \<Rightarrow> Inl e
              | Inr vs \<Rightarrow>
             (case nan_or_float_list sf vs of
                Inl e \<Rightarrow> Inl e
              | Inr ys \<Rightarrow>
             (case py_get summary ''config'' (JObj []) of
                Inl e \<Rightarrow> Inl e
              | Inr config \<Rightarrow>
             (case py_get config ''kind'' (JStr ''unknown'') of
                Inl e \<Rightarrow> Inl e
              | Inr kind \<Rightarrow>
             (case py_get config ''atStep'' (JInt 0) of
                Inl e \<Rightarrow> Inl e
              | Inr at_step \<Rightarrow>
                  similarity_curves sf rest
                    (fst st @ [\<lparr>curve_label = label, curve_xs = [0..<length ys],
                                 curve_ys = ys\<rparr>],
                     snd st @ [(label, kind, at_step)]))))))))"

text \<open>
  \<^verbatim>\<open>max(0.5, duration)\<close>: the larger of the two for a number or a bool; comparing a
  float with anything else raises TypeError.
\<close>

fun py_max_half :: "json \<Rightarrow> py_error + real" where
  "py_max_half (JInt i) = Inr (max (1 / 2) (of_int i))"
| "py_max_half (JFloat x) = Inr (max (1 / 2) x)"
| "py_max_half (JBool b) = Inr (max (1 / 2) (if b then 1 else 0))"
| "py_max_half v = Inl TypeError"

text \<open>
  The block \<^verbatim>\<open>if summaries:\<close> of \<^verbatim>\<open>plot_perturbation_sets\<close> up to the first
  \<^verbatim>\<open>save_figure\<close>: no figure for no summaries; otherwise the loop, and for a single
  summary the perturbation window from \<^verbatim>\<open>durationSteps\<close> of its configuration.
\<close>

definition plot_similarity ::
  "str_parser \<Rightarrow> (string \<times> json) list \<Rightarrow> py_error + similarity_figure option" where
  "plot_similarity sf summaries =
     (if summaries = [] then Inr None
      else
        (case similarity_curves sf summaries ([], []) of
           Inl e \<Rightarrow> Inl e
         | Inr st \<Rightarrow>
             (if length summaries = 1 then
                (case py_get (snd (hd summaries)) ''config'' (JObj []) of
                   Inl e \<Rightarrow> Inl e
                 | Inr config \<Rightarrow>
                (case py_get config ''durationSteps'' (JInt 1) of
                   Inl e \<Rightarrow> Inl e
                 | Inr duration \<Rightarrow>
                (case py_max_half duration of
                   Inl e \<Rightarrow> Inl e
                 | Inr right_end \<Rightarrow>
                     Inr (Some \<lparr>sim_curves = fst st, sim_title_parts = snd st,
                                sim_window = Some right_end\<rparr>))))
              else Inr (Some \<lparr>sim_curves = fst st, sim_title_parts = snd st,
                               sim_window = None\<rparr>))))"

text \<open>
  For the statements below. An entry the comprehension accepts is null or a value
  \<^verbatim>\<open>float\<close> accepts, and the entry of the array expected for it is NaN or that float. A
  summary can be plotted when it is a mapping whose \<^verbatim>\<open>similarityByOffset\<close>, if present,
  is a mapping whose \<^verbatim>\<open>mean\<close>, if present, is a false value or a list of such
  entries, and whose \<^verbatim>\<open>config\<close>, if present, is a mapping (the configuration of a
  summary with no similarities is not read). Its points are the entries of that list,
  and the curve expected for it has NaN or the float at the position of each point.
  The window of a single summary needs a configuration whose \<^verbatim>\<open>durationSteps\<close>, if
  present, is a number or a bool.
\<close>

fun nan_ok :: "str_parser \<Rightarrow> json \<Rightarrow> bool" where
  "nan_ok sf JNull = True"
| "nan_ok sf v = float_ok sf v"

fun placeholder :: "str_parser \<Rightarrow> json \<Rightarrow> npfloat" where
  "placeholder sf JNull = NaN"
| "placeholder sf v = Num (float_val sf v)"

fun is_mapping :: "json \<Rightarrow> bool" where
  "is_mapping (JObj m) = True"
| "is_mapping v = False"

definition config_ok :: "json \<Rightarrow> bool" where
  "config_ok summary =
     (case py_get summary ''config'' (JObj []) of Inl e \<Rightarrow> False | Inr config \<Rightarrow> is_mapping config)"

definition plottable :: "str_parser \<Rightarrow> json \<Rightarrow> bool" where
  "plottable sf summary =
     (case similarity_mean summary of
        Inl e \<Rightarrow> False
      | Inr similarity \<Rightarrow>
          (case similarity of
             JList vs \<Rightarrow> list_all (nan_ok sf) vs \<and> (vs = [] \<or> config_ok summary)
           | _ \<Rightarrow> \<not> py_truthy similarity))"

definition points_of :: "json \<Rightarrow> json list" where
  "points_of summary = (case similarity_mean summary of Inr (JList vs) \<Rightarrow> vs | _ \<Rightarrow> [])"

definition curve_of :: "str_parser \<Rightarrow> string \<times> json \<Rightarrow> curve" where
  "curve_of sf s =
     \<lparr>curve_label = fst s, curve_xs = [0..<length (points_of (snd s))],
      curve_ys = map (placeholder sf) (points_of (snd s))\<rparr>"

definition window_ok :: "json \<Rightarrow> bool" where
  "window_ok summary =
     (case py_get summary ''config'' (JObj []) of
        Inl e \<Rightarrow> False
      | Inr config \<Rightarrow>
          (case py_get config ''durationSteps'' (JInt 1) of
             Inl e \<Rightarrow> False
           | Inr duration \<Rightarrow> (case py_max_half duration of Inl e \<Rightarrow> False | Inr x \<Rightarrow> True)))"

section \<open>The perturbation sets of the command line\<close>

text \<open>
  \<^verbatim>\<open>os.path.basename\<close> and \<^verbatim>\<open>os.path.dirname\<close> as \<^verbatim>\<open>posixpath\<close> defines them:
  with \<open>i\<close> the index just after the last slash (0 when there is none), the base name
  is \<^verbatim>\<open>p[i:]\<close> and the directory name is \<^verbatim>\<open>p[:i]\<close> without its trailing slashes,
  unless it consists of slashes only.
\<close>

definition after_last_slash :: "string \<Rightarrow> nat" where
  "after_last_slash p = length p - length (takeWhile (\<lambda>c. c \<noteq> CHR ''/'') (rev p))"

definition basename :: "string \<Rightarrow> string" where
  "basename p = drop (after_last_slash p) p"

definition rstrip_slash :: "string \<Rightarrow> string" where
  "rstrip_slash s = rev (dropWhile (\<lambda>c. c = CHR ''/'') (rev s))"

definition dirname :: "string \<Rightarrow> string" where
  "dirname p =
     (let head = take (after_last_slash p) p
      in if head \<noteq> [] \<and> head \<noteq> replicate (length head) CHR ''/'' then rstrip_slash head
         else head)"

text \<open>\<^verbatim>\<open>_derive_label(path, fallback)\<close>; \<^verbatim>\<open>x or fallback\<close> is \<open>x\<close> unless \<open>x\<close> is empty.\<close>

definition derive_label :: "string option \<Rightarrow> string \<Rightarrow> string" where
  "derive_label path fallback =
     (case path of
        None \<Rightarrow> fallback
      | Some p \<Rightarrow>
          (if p = [] then fallback
           else
             let parent = basename (dirname p)
             in if parent = ''perturb'' then
                  (let grand = basename (dirname (dirname p))
                   in if grand \<noteq> [] then grand else fallback)
                else if parent \<noteq> [] then parent else fallback))"

text \<open>\<^verbatim>\<open>s.split(c)\<close>, and \<^verbatim>\<open>str(n)\<close> for a natural number.\<close>

fun split_on :: "char \<Rightarrow> string \<Rightarrow> string list" where
  "split_on c [] = [[]]"
| "split_on c (x # xs) =
     (if x = c then [] # split_on c xs
      else (let r = split_on c xs in (x # hd r) # tl r))"

fun str_nat :: "nat \<Rightarrow> string" where
  "str_nat n =
     (if n < 10 then [''0123456789'' ! n]
      else str_nat (n div 10) @ [''0123456789'' ! (n mod 10)])"

text \<open>
  A repeatable option is \<^verbatim>\<open>None\<close> when it was not given, else the list of its
  occurrences; each occurrence is split at commas and its empty parts are dropped.
\<close>

definition option_parts :: "string list option \<Rightarrow> string list" where
  "option_parts arg =
     (case arg of
        None \<Rightarrow> []
      | Some entries \<Rightarrow> concat (map (\<lambda>entry. filter (\<lambda>part. part \<noteq> []) (split_on CHR '','' entry)) entries))"

text \<open>\<^verbatim>\<open>a or b\<close> on two optional paths.\<close>

definition path_or :: "string option \<Rightarrow> string option \<Rightarrow> string option" where
  "path_or a b = (case a of None \<Rightarrow> b | Some p \<Rightarrow> if p \<noteq> [] then a else b)"

type_synonym perturb_set = "string \<times> string option \<times> string option"

text \<open>The loop \<^verbatim>\<open>for idx in range(max_len)\<close> of \<^verbatim>\<open>main\<close>, \<open>sets\<close> being the list so far.\<close>

fun collect_sets ::
  "string list \<Rightarrow> string list \<Rightarrow> string list \<Rightarrow> nat list \<Rightarrow> perturb_set list \<Rightarrow> perturb_set list" where
  "collect_sets summaries trials labels [] sets = sets"
| "collect_sets summaries trials labels (idx # rest) sets =
     (let summary_path = (if idx < length summaries then Some (summaries ! idx) else None);
          trials_path = (if idx < length trials then Some (trials ! idx) else None);
          label = (if idx < length labels then labels ! idx
                   else derive_label (path_or summary_path trials_path)
                          (''set-'' @ str_nat (idx + 1)))
      in if summary_path = None \<and> trials_path = None
         then collect_sets summaries trials labels rest sets
         else collect_sets summaries trials labels rest
                (sets @ [(label, summary_path, trials_path)]))"

text \<open>
  The perturb branch of \<^verbatim>\<open>main\<close>, from the three repeatable options to the list handed
  to \<^verbatim>\<open>plot_perturbation_sets\<close>.
\<close>

definition perturb_sets ::
  "string list option \<Rightarrow> string list option \<Rightarrow> string list option \<Rightarrow> perturb_set list" where
  "perturb_sets perturbSummary perturbTrials perturbLabel =
     (let summaries = option_parts perturbSummary;
          trials = option_parts perturbTrials;
          labels = option_parts perturbLabel;
          max_len = max (max (max (length summaries) (length trials)) (length labels)) 1
      in collect_sets summaries trials labels [0..<max_len] [])"

text \<open>
  For the statements below: the path a missing label is derived from, and the label
  expected for it: the name of the parent directory, the name of the directory above
  when the parent is called \<^verbatim>\<open>perturb\<close>, and \<open>set-N\<close> when that name is empty.
\<close>

definition label_path :: "string list \<Rightarrow> string list \<Rightarrow> nat \<Rightarrow> string" where
  "label_path summaries trials idx =
     (if idx < length summaries then summaries ! idx else trials ! idx)"

definition derived_label :: "string \<Rightarrow> nat \<Rightarrow> string" where
  "derived_label p idx =
     (let name = (if basename (dirname p) = ''perturb'' then basename (dirname (dirname p))
                  else basename (dirname p))
      in if name = [] then ''set-'' @ str_nat (idx + 1) else name)"

text \<open>The set the loop appends for an index that has a summary or a trials path.\<close>

definition set_entry :: "string list \<Rightarrow> string list \<Rightarrow> string list \<Rightarrow> nat \<Rightarrow> perturb_set" where
  "set_entry summaries trials labels idx =
     (let summary_path = (if idx < length summaries then Some (summaries ! idx) else None);
          trials_path = (if idx < length trials then Some (trials ! idx) else None)
      in ((if idx < length labels then labels ! idx
           else derive_label (path_or summary_path trials_path) (''set-'' @ str_nat (idx + 1))),
          summary_path, trials_path))"

section \<open>The binned average of the probe heatmap\<close>

text \<open>
  \<^verbatim>\<open>a.min()\<close> and \<^verbatim>\<open>a.max()\<close> of a one-dimensional array: ValueError on an empty one.
\<close>

fun np_min :: "real list \<Rightarrow> py_error + real" where
  "np_min [] = Inl ValueError"
| "np_min (x # xs) = Inr (fold min xs x)"

fun np_max :: "real list \<Rightarrow> py_error + real" where
  "np_max [] = Inl ValueError"
| "np_max (x # xs) = Inr (fold max xs x)"

text \<open>
  \<^verbatim>\<open>np.linspace(lo, hi, bins + 1)\<close>: \<open>bins + 1\<close> evenly spaced edges, the last one set
  to \<open>hi\<close>; the single edge \<open>lo\<close> when \<open>bins = 0\<close>.
\<close>

definition np_linspace :: "real \<Rightarrow> real \<Rightarrow> nat \<Rightarrow> real list" where
  "np_linspace lo hi bins =
     (if bins = 0 then [lo]
      else map (\<lambda>k. lo + real k * ((hi - lo) / real bins)) [0..<bins] @ [hi])"

text \<open>
  \<^verbatim>\<open>np.searchsorted(edges, v, side='right')\<close> on ascending edges: the number of edges
  that are at most \<open>v\<close>. \<^verbatim>\<open>np.clip(i, lo, hi)\<close> is \<open>min (max i lo) hi\<close>.
\<close>

definition np_searchsorted_right :: "real list \<Rightarrow> real \<Rightarrow> int" where
  "np_searchsorted_right edges v = int (length (filter (\<lambda>e. e \<le> v) edges))"

definition np_clip :: "int \<Rightarrow> int \<Rightarrow> int \<Rightarrow> int" where
  "np_clip i lo hi = min (max i lo) hi"

text \<open>The bin of a value: the index computed for \<open>xv\<close> (and likewise for \<open>yv\<close>).\<close>

definition bin_index :: "real list \<Rightarrow> nat \<Rightarrow> real \<Rightarrow> int" where
  "bin_index edges bins v = np_clip (np_searchsorted_right edges v - 1) 0 (int bins - 1)"

text \<open>
  An index into an axis of size \<open>n\<close>: a negative index counts from the end, an index
  outside \<open>-n..<n\<close> raises IndexError.
\<close>

definition np_index :: "nat \<Rightarrow> int \<Rightarrow> py_error + nat" where
  "np_index n i =
     (if 0 \<le> i \<and> i < int n then Inr (nat i)
      else if - int n \<le> i \<and> i < 0 then Inr (nat (i + int n))
      else Inl IndexError)"

text \<open>\<^verbatim>\<open>a[r, c] += v\<close> on a two-dimensional array held as a list of rows.\<close>

definition add_at :: "real list list \<Rightarrow> nat \<Rightarrow> nat \<Rightarrow> real \<Rightarrow> real list list" where
  "add_at a r c v = a[r := (a ! r)[c := a ! r ! c + v]]"

text \<open>
  The loop \<^verbatim>\<open>for xv, yv, v in zip(x, y, values)\<close>; the state is the pair of \<^verbatim>\<open>grid\<close>
  and \<^verbatim>\<open>counts\<close>.
\<close>

fun accumulate ::
  "real list \<Rightarrow> real list \<Rightarrow> nat \<Rightarrow> (real \<times> real \<times> real) list
   \<Rightarrow> real list list \<times> real list list \<Rightarrow> py_error + real list list \<times> real list list" where
  "accumulate x_edges y_edges bins [] (grid, counts) = Inr (grid, counts)"
| "accumulate x_edges y_edges bins ((xv, yv, v) # rest) (grid, counts) =
     (let xi = bin_index x_edges bins xv;
          yi = bin_index y_edges bins yv
      in case np_index bins yi of
           Inl e \<Rightarrow> Inl e
         | Inr r \<Rightarrow>
             (case np_index bins xi of
                Inl e \<Rightarrow> Inl e
              | Inr c \<Rightarrow>
                  accumulate x_edges y_edges bins rest
                    (add_at grid r c v, add_at counts r c 1)))"

text \<open>
  \<^verbatim>\<open>counts[counts == 0] = 1\<close> and the elementwise \<^verbatim>\<open>grid / counts\<close>. A division of
  arrays does not raise: a zero denominator gives nan (for 0 / 0) or an infinity.
\<close>

definition clamp_counts :: "real list list \<Rightarrow> real list list" where
  "clamp_counts counts = map (map (\<lambda>c. if c = 0 then 1 else c)) counts"

definition np_divide :: "real \<Rightarrow> real \<Rightarrow> npfloat" where
  "np_divide a b =
     (if b \<noteq> 0 then Num (a / b)
      else if a = 0 then NaN
      else if 0 < a then PosInf else NegInf)"

definition divide_grid :: "real list list \<Rightarrow> real list list \<Rightarrow> npfloat list list" where
  "divide_grid grid counts = map2 (\<lambda>g c. map2 np_divide g c) grid counts"

definition binned_stat ::
  "real list \<Rightarrow> real list \<Rightarrow> real list \<Rightarrow> nat
   \<Rightarrow> py_error + npfloat list list \<times> real list \<times> real list" where
  "binned_stat x y vals bins =
     (case np_min x of Inl e \<Rightarrow> Inl e | Inr x_lo \<Rightarrow>
      case np_max x of Inl e \<Rightarrow> Inl e | Inr x_hi \<Rightarrow>
      case np_min y of Inl e \<Rightarrow> Inl e | Inr y_lo \<Rightarrow>
      case np_max y of Inl e \<Rightarrow> Inl e | Inr y_hi \<Rightarrow>
        (let x_edges = np_linspace x_lo x_hi bins;
             y_edges = np_linspace y_lo y_hi bins;
             grid = replicate bins (replicate bins 0);
             counts = replicate bins (replicate bins 0)
         in case accumulate x_edges y_edges bins (zip x (zip y vals)) (grid, counts) of
              Inl e \<Rightarrow> Inl e
            | Inr (grid', counts') \<Rightarrow>
                Inr (divide_grid grid' (clamp_counts counts'), x_edges, y_edges)))"

text \<open>
  For the statements below: a sample contributes to the cell in row \<open>r\<close> and column
  \<open>c\<close> when its \<open>y\<close> bin is \<open>r\<close> and its \<open>x\<close> bin is \<open>c\<close>; a grid is square of side
  \<open>n\<close>.
\<close>

definition contributes ::
  "real list \<Rightarrow> real list \<Rightarrow> nat \<Rightarrow> nat \<Rightarrow> nat \<Rightarrow> real \<times> real \<times> real \<Rightarrow> bool" where
  "contributes x_edges y_edges bins r c s =
     (bin_index y_edges bins (fst (snd s)) = int r \<and> bin_index x_edges bins (fst s) = int c)"

definition square :: "nat \<Rightarrow> real list list \<Rightarrow> bool" where
  "square n a = (length a = n \<and> list_all (\<lambda>row. length row = n) a)"

section \<open>The topology generator\<close>

text \<open>
  \<^verbatim>\<open>generate_topology(topology_type, n_neurons, n_digits)\<close> of the second script. The two
  counts are natural numbers here. \<^verbatim>\<open>np.random.normal(0, 0.1)\<close> reads the global random
  generator: the model takes the sequence \<open>noise\<close> of the samples the generator hands
  out, and the loops thread the number of samples drawn so far next to the weights.
\<close>

text \<open>\<^verbatim>\<open>np.repeat(np.arange(n_digits), neurons_per_digit)\<close>\<close>

definition neuron_prefs :: "nat \<Rightarrow> nat \<Rightarrow> int list" where
  "neuron_prefs n_digits neurons_per_digit =
     concat (map (\<lambda>d. replicate neurons_per_digit (int d)) [0..<n_digits])"

text \<open>The distance logic of the loop body.\<close>

definition topo_dist :: "string \<Rightarrow> nat \<Rightarrow> int \<Rightarrow> int \<Rightarrow> int" where
  "topo_dist topology_type n_digits digit_i digit_j =
     (let raw_dist = \<bar>digit_i - digit_j\<bar>
      in if topology_type = ''Ring'' then min raw_dist (int n_digits - raw_dist)
         else raw_dist)"

text \<open>\<^verbatim>\<open>a[r, c] = v\<close> on a two-dimensional array held as a list of rows.\<close>

definition set_at :: "real list list \<Rightarrow> nat \<Rightarrow> nat \<Rightarrow> real \<Rightarrow> real list list" where
  "set_at a r c v = a[r := (a ! r)[c := v]]"

text \<open>
  The body of the inner loop for the neurons \<open>i\<close> and \<open>j\<close>: reading the preference of a
  neuron that has none raises IndexError; a weight at distance 0 or 1 takes the next
  noise sample.
\<close>

definition cell ::
  "string \<Rightarrow> nat \<Rightarrow> int list \<Rightarrow> (nat \<Rightarrow> real) \<Rightarrow> nat \<Rightarrow> nat
   \<Rightarrow> real list list \<times> nat \<Rightarrow> py_error + real list list \<times> nat" where
  "cell topology_type n_digits neuron_preferences noise i j st =
     (if length neuron_preferences \<le> i then Inl IndexError
      else if length neuron_preferences \<le> j then Inl IndexError
      else
        let digit_i = neuron_preferences ! i;
            digit_j = neuron_preferences ! j;
            dist = topo_dist topology_type n_digits digit_i digit_j;
            weights = fst st;
            drawn = snd st
        in if dist = 0 then Inr (set_at weights i j (1 + noise drawn), Suc drawn)
           else if dist = 1 then Inr (set_at weights i j (1 / 2 + noise drawn), Suc drawn)
           else Inr (set_at weights i j 0, drawn))"

text \<open>\<^verbatim>\<open>for j in range(n_neurons)\<close> and \<^verbatim>\<open>for i in range(n_neurons)\<close>.\<close>

fun inner_loop ::
  "string \<Rightarrow> nat \<Rightarrow> int list \<Rightarrow> (nat \<Rightarrow> real) \<Rightarrow> nat \<Rightarrow> nat list
   \<Rightarrow> real list list \<times> nat \<Rightarrow> py_error + real list list \<times> nat" where
  "inner_loop topology_type n_digits prefs noise i [] st = Inr st"
| "inner_loop topology_type n_digits prefs noise i (j # js) st =
     (case cell topology_type n_digits prefs noise i j st of
        Inl e \<Rightarrow> Inl e
      | Inr st' \<Rightarrow> inner_loop topology_type n_digits prefs noise i js st')"

fun outer_loop ::
  "string \<Rightarrow> nat \<Rightarrow> int list \<Rightarrow> (nat \<Rightarrow> real) \<Rightarrow> nat \<Rightarrow> nat list
   \<Rightarrow> real list list \<times> nat \<Rightarrow> py_error + real list list \<times> nat" where
  "outer_loop topology_type n_digits prefs noise n_neurons [] st = Inr st"
| "outer_loop topology_type n_digits prefs noise n_neurons (i # is) st =
     (case inner_loop topology_type n_digits prefs noise i [0..<n_neurons] st of
        Inl e \<Rightarrow> Inl e
      | Inr st' \<Rightarrow> outer_loop topology_type n_digits prefs noise n_neurons is st')"

definition generate_topology ::
  "string \<Rightarrow> nat \<Rightarrow> nat \<Rightarrow> (nat \<Rightarrow> real) \<Rightarrow> py_error + real list list \<times> int list" where
  "generate_topology topology_type n_neurons n_digits noise =
     (if n_digits = 0 then Inl ZeroDivisionError
      else
        let neurons_per_digit = n_neurons div n_digits;
            weights = replicate n_neurons (replicate n_neurons 0);
            neuron_preferences = neuron_prefs n_digits neurons_per_digit
        in case outer_loop topology_type n_digits neuron_preferences noise n_neurons
                  [0..<n_neurons] (weights, 0) of
             Inl e \<Rightarrow> Inl e
           | Inr st \<Rightarrow> Inr (fst st, neuron_preferences))"

text \<open>
  For the statements below, in the words of the specification: the modular
  (wrap-around) distance of two digits on a ring of \<open>n\<close> digits, the absolute linear
  distance, the distance a topology goes by, and what a weight at a given distance
  has to be: 1 plus a noise sample at distance 0, 0.5 plus a noise sample at distance
  1, and 0 otherwise.
\<close>

definition modular_dist :: "nat \<Rightarrow> int \<Rightarrow> int \<Rightarrow> int" where
  "modular_dist n a b = min ((a - b) mod int n) ((b - a) mod int n)"

definition linear_dist :: "int \<Rightarrow> int \<Rightarrow> int" where
  "linear_dist a b = \<bar>a - b\<bar>"

definition digit_dist :: "string \<Rightarrow> nat \<Rightarrow> int \<Rightarrow> int \<Rightarrow> int" where
  "digit_dist topology_type n a b =
     (if topology_type = ''Ring'' then modular_dist n a b else linear_dist a b)"

definition weight_at :: "(nat \<Rightarrow> real) \<Rightarrow> int \<Rightarrow> real \<Rightarrow> bool" where
  "weight_at noise distance w =
     (if distance = 0 then (\<exists>k. w = 1 + noise k)
      else if distance = 1 then (\<exists>k. w = 1 / 2 + noise k)
      else w = 0)"

chapter \<open>Properties\<close>

section \<open>Properties of the accuracy-history normalisation\<close>

lemma py_float_ok: "float_ok sf v \<Longrightarrow> py_float sf v = Inr (float_val sf v)"
  by (cases v) (auto split: option.splits)

lemma py_float_not_ok: "\<not> float_ok sf v \<Longrightarrow> \<exists>e. py_float sf v = Inl e"
  by (cases v) (auto split: option.splits)

lemma py_float_number_not_ok:
  "is_number v \<Longrightarrow> \<not> float_ok sf v \<Longrightarrow> py_float sf v = Inl OverflowError"
  by (cases v) auto

lemma float_val_number: "is_number v \<Longrightarrow> float_val sf v = num_val v"
  by (cases v) simp_all

lemma float_list_ok:
  "list_all (float_ok sf) vs \<Longrightarrow> float_list sf vs = Inr (map (float_val sf) vs)"
proof (induction vs)
  case Nil
  show ?case by simp
next
  case (Cons v vs)
  then have "py_float sf v = Inr (float_val sf v)"
    and "float_list sf vs = Inr (map (float_val sf) vs)"
    by (simp_all add: py_float_ok)
  then show ?case by simp
qed

lemma float_list_not_ok:
  "\<not> list_all (float_ok sf) vs \<Longrightarrow> \<exists>e. float_list sf vs = Inl e"
proof (induction vs)
  case Nil
  then show ?case by simp
next
  case (Cons v vs)
  show ?case
  proof (cases "float_ok sf v")
    case True
    with Cons obtain e where "float_list sf vs = Inl e" by auto
    with True show ?thesis by (simp add: py_float_ok)
  next
    case False
    then obtain e where "py_float sf v = Inl e" using py_float_not_ok by blast
    then show ?thesis by simp
  qed
qed

lemma float_list_number_not_ok:
  "list_all is_number vs \<Longrightarrow> \<not> list_all (float_ok sf) vs
     \<Longrightarrow> float_list sf vs = Inl OverflowError"
proof (induction vs)
  case Nil
  then show ?case by simp
next
  case (Cons v vs)
  then have num: "is_number v" and nums: "list_all is_number vs" by simp_all
  show ?case
  proof (cases "float_ok sf v")
    case True
    with Cons.prems(2) have "\<not> list_all (float_ok sf) vs" by simp
    with Cons.IH nums have "float_list sf vs = Inl OverflowError" by simp
    with True show ?thesis by (simp add: py_float_ok)
  next
    case False
    with num have "py_float sf v = Inl OverflowError" by (rule py_float_number_not_ok)
    then show ?thesis by simp
  qed
qed

text \<open>
  Claim C2, as amended. A flat list of numbers in which every int is within the range
  of a double normalises to exactly one series, named \<^verbatim>\<open>readout\<close>, that holds the
  numbers of the list in the order of the list, and to no diagnostic. A flat list of
  numbers with an int outside that range raises OverflowError.
\<close>

theorem normalize_flat_list:
  assumes "list_all is_number vs"
  shows "(list_all (float_ok sf) vs \<longrightarrow>
            normalize_acc_history sf (JList vs) = Inr (Some [(''readout'', map num_val vs)], None))
         \<and> (\<not> list_all (float_ok sf) vs \<longrightarrow>
            normalize_acc_history sf (JList vs) = Inl OverflowError)"
proof (intro conjI impI)
  assume ok: "list_all (float_ok sf) vs"
  from assms have "map (float_val sf) vs = map num_val vs"
    by (simp add: list_all_iff float_val_number)
  with float_list_ok [OF ok]
  show "normalize_acc_history sf (JList vs) = Inr (Some [(''readout'', map num_val vs)], None)"
    by simp
next
  assume "\<not> list_all (float_ok sf) vs"
  with assms have "float_list sf vs = Inl OverflowError"
    by (rule float_list_number_not_ok)
  then show "normalize_acc_history sf (JList vs) = Inl OverflowError"
    by simp
qed

theorem normalize_flat_list_witness:
  "normalize_acc_history (\<lambda>s. None) (JList [JFloat 0.25, JInt 1, JFloat 0.5])
     = Inr (Some [(''readout'', [0.25, 1, 0.5])], None)"
  using normalize_flat_list [of "[JFloat 0.25, JInt 1, JFloat 0.5]" "\<lambda>s. None"]
  by (simp add: float_limit_def)

text \<open>
  Claim C2 as stated does not hold: the flat numeric list \<^verbatim>\<open>[10**400]\<close> raises
  OverflowError instead of giving a series.
\<close>

theorem normalize_flat_list_counterexample:
  "list_all is_number [JInt (10 ^ 400)]
   \<and> normalize_acc_history (\<lambda>s. None) (JList [JInt (10 ^ 400)]) = Inl OverflowError"
  by (simp add: float_limit_def)

text \<open>
  Claim C3, as amended. A mapping whose only key is \<^verbatim>\<open>samples\<close>, bound to a list of
  values that \<^verbatim>\<open>float\<close> accepts, normalises to exactly one series, derived from
  \<^verbatim>\<open>samples\<close> (the code files it under \<^verbatim>\<open>readout\<close>): the \<^verbatim>\<open>float\<close> of each element, in
  order, which for a number is the number itself; and to no diagnostic. When
  \<^verbatim>\<open>float\<close> rejects an element, the call raises.
\<close>

theorem normalize_samples_only:
  "(list_all (float_ok sf) vs \<longrightarrow>
      normalize_acc_history sf (JObj [(''samples'', JList vs)])
        = Inr (Some [(''readout'', map (float_val sf) vs)], None)
      \<and> (list_all is_number vs \<longrightarrow>
          normalize_acc_history sf (JObj [(''samples'', JList vs)])
            = Inr (Some [(''readout'', map num_val vs)], None)))
   \<and> (\<not> list_all (float_ok sf) vs \<longrightarrow>
      (\<exists>e. normalize_acc_history sf (JObj [(''samples'', JList vs)]) = Inl e))"
proof (intro conjI impI)
  assume ok: "list_all (float_ok sf) vs"
  from float_list_ok [OF ok]
  show run: "normalize_acc_history sf (JObj [(''samples'', JList vs)])
        = Inr (Some [(''readout'', map (float_val sf) vs)], None)"
    by (simp add: dict_get_def samples_fallback_def)
  assume "list_all is_number vs"
  then have "map (float_val sf) vs = map num_val vs"
    by (simp add: list_all_iff float_val_number)
  with run show "normalize_acc_history sf (JObj [(''samples'', JList vs)])
        = Inr (Some [(''readout'', map num_val vs)], None)"
    by simp
next
  assume "\<not> list_all (float_ok sf) vs"
  then obtain e where "float_list sf vs = Inl e"
    using float_list_not_ok by blast
  then have "normalize_acc_history sf (JObj [(''samples'', JList vs)]) = Inl e"
    by (simp add: dict_get_def samples_fallback_def)
  then show "\<exists>e. normalize_acc_history sf (JObj [(''samples'', JList vs)]) = Inl e"
    by blast
qed

theorem normalize_samples_only_witness:
  "normalize_acc_history (\<lambda>s. None) (JObj [(''samples'', JList [JFloat 0.5, JInt 1])])
     = Inr (Some [(''readout'', [0.5, 1])], None)"
  using normalize_samples_only [of "\<lambda>s. None" "[JFloat 0.5, JInt 1]"]
  by (simp add: float_limit_def)

text \<open>
  Claim C3 as stated does not hold: with \<^verbatim>\<open>samples\<close> bound to the list \<^verbatim>\<open>[null]\<close> the
  call raises TypeError instead of giving a series.
\<close>

theorem normalize_samples_only_counterexample:
  "normalize_acc_history (\<lambda>s. None) (JObj [(''samples'', JList [JNull])]) = Inl TypeError"
  by (simp add: dict_get_def samples_fallback_def)

lemma join_contains:
  "k \<in> set ks \<Longrightarrow> \<exists>pre post. join sep ks = pre @ k @ post"
proof (induction sep ks rule: join.induct)
  case (1 sep)
  then show ?case by simp
next
  case (2 sep x)
  then have "join sep [x] = [] @ k @ []" by simp
  then show ?case by blast
next
  case (3 sep x y ys)
  show ?case
  proof (cases "k = x")
    case True
    then have "join sep (x # y # ys) = [] @ k @ (sep @ join sep (y # ys))" by simp
    then show ?thesis by blast
  next
    case False
    with 3 obtain pre post where "join sep (y # ys) = pre @ k @ post" by auto
    then have "join sep (x # y # ys) = (x @ sep @ pre) @ k @ post" by simp
    then show ?thesis by blast
  qed
qed

lemma collect_series_known:
  "collect_series sf m [''readout'', ''proto''] [] =
     (case dict_get m ''readout'' of
        JList rs \<Rightarrow>
          (case float_list sf rs of
             Inl e \<Rightarrow> Inl e
           | Inr fr \<Rightarrow>
               (case dict_get m ''proto'' of
                  JList ps \<Rightarrow>
                    (case float_list sf ps of
                       Inl e \<Rightarrow> Inl e
                     | Inr fp \<Rightarrow> Inr [(''readout'', fr), (''proto'', fp)])
                | _ \<Rightarrow> Inr [(''readout'', fr)]))
      | _ \<Rightarrow>
          (case dict_get m ''proto'' of
             JList ps \<Rightarrow>
               (case float_list sf ps of
                  Inl e \<Rightarrow> Inl e
                | Inr fp \<Rightarrow> Inr [(''proto'', fp)])
           | _ \<Rightarrow> Inr []))"
  by (simp split: json.splits sum.splits)

text \<open>
  Claim C4. A mapping in which none of \<^verbatim>\<open>readout\<close>, \<^verbatim>\<open>proto\<close> and \<^verbatim>\<open>samples\<close> is
  bound to a list does not raise: the function returns no data and the diagnostic
  \<^verbatim>\<open>unknown keys: \<close> followed by the keys of the mapping, so every key of the
  mapping occurs in the diagnostic.
\<close>

theorem normalize_unrecognized:
  assumes "\<not> is_list (dict_get m ''readout'')"
    and "\<not> is_list (dict_get m ''proto'')"
    and "\<not> is_list (dict_get m ''samples'')"
  shows "normalize_acc_history sf (JObj m)
           = Inr (None, Some (''unknown keys: '' @ join '', '' (map fst m)))
         \<and> (\<forall>k \<in> set (map fst m). \<exists>pre post.
               ''unknown keys: '' @ join '', '' (map fst m) = pre @ k @ post)"
proof
  from assms(1,2) have "collect_series sf m [''readout'', ''proto''] [] = Inr []"
    by (cases "dict_get m ''readout''"; cases "dict_get m ''proto''") simp_all
  moreover from assms(3) have "samples_fallback sf m [] = Inr []"
    by (cases "dict_get m ''samples''") (simp_all add: samples_fallback_def)
  ultimately show "normalize_acc_history sf (JObj m)
      = Inr (None, Some (''unknown keys: '' @ join '', '' (map fst m)))"
    by simp
next
  show "\<forall>k \<in> set (map fst m). \<exists>pre post.
          ''unknown keys: '' @ join '', '' (map fst m) = pre @ k @ post"
  proof
    fix k assume "k \<in> set (map fst m)"
    then obtain pre post where "join '', '' (map fst m) = pre @ k @ post"
      using join_contains by blast
    then have "''unknown keys: '' @ join '', '' (map fst m) = (''unknown keys: '' @ pre) @ k @ post"
      by simp
    then show "\<exists>pre post. ''unknown keys: '' @ join '', '' (map fst m) = pre @ k @ post"
      by blast
  qed
qed

theorem normalize_unrecognized_witness:
  "normalize_acc_history (\<lambda>s. None) (JObj [(''foo'', JInt 1), (''samples'', JStr ''x'')])
     = Inr (None, Some ''unknown keys: foo, samples'')
   \<and> (\<exists>pre post. ''unknown keys: foo, samples'' = pre @ ''foo'' @ post)
   \<and> (\<exists>pre post. ''unknown keys: foo, samples'' = pre @ ''samples'' @ post)"
  using normalize_unrecognized [of "[(''foo'', JInt 1), (''samples'', JStr ''x'')]" "\<lambda>s. None"]
  by (simp add: dict_get_def)

lemma samples_fallback_nonempty:
  "series \<noteq> [] \<Longrightarrow> samples_fallback sf m series = Inr series"
  by (cases "dict_get m ''samples''") (simp_all add: samples_fallback_def)

lemma dict_get_dict_set_other:
  "k' \<noteq> k \<Longrightarrow> dict_get (dict_set m k v) k' = dict_get m k'"
  by (induction m) (auto simp: dict_get_def)

lemma collect_series_nonempty:
  assumes "is_list (dict_get m ''readout'') \<or> is_list (dict_get m ''proto'')"
    and "collect_series sf m [''readout'', ''proto''] [] = Inr series"
  shows "series \<noteq> []"
  using assms unfolding collect_series_known
  by (cases "dict_get m ''readout''"; cases "dict_get m ''proto''")
     (auto split: sum.splits)

lemma normalize_by_recognized:
  assumes "is_list (dict_get m ''readout'') \<or> is_list (dict_get m ''proto'')"
  shows "normalize_acc_history sf (JObj m)
           = (case collect_series sf m [''readout'', ''proto''] [] of
                Inl e \<Rightarrow> Inl e
              | Inr series \<Rightarrow> Inr (Some series, None))"
proof (cases "collect_series sf m [''readout'', ''proto''] []")
  case (Inl e)
  then show ?thesis by simp
next
  case (Inr series)
  with assms have ne: "series \<noteq> []" by (rule collect_series_nonempty)
  then have "samples_fallback sf m series = Inr series"
    by (rule samples_fallback_nonempty)
  with Inr ne show ?thesis by simp
qed

lemma collect_series_floatable:
  assumes "floatable_list sf (dict_get m ''readout'')"
    and "floatable_list sf (dict_get m ''proto'')"
  shows "collect_series sf m [''readout'', ''proto''] []
           = Inr (series_of sf ''readout'' (dict_get m ''readout'')
                  @ series_of sf ''proto'' (dict_get m ''proto''))"
  unfolding collect_series_known using assms
  by (cases "dict_get m ''readout''"; cases "dict_get m ''proto''")
     (simp_all add: series_of_def float_list_ok)

lemma collect_series_not_floatable:
  assumes "\<not> (floatable_list sf (dict_get m ''readout'')
              \<and> floatable_list sf (dict_get m ''proto''))"
  shows "\<exists>e. collect_series sf m [''readout'', ''proto''] [] = Inl e"
proof (cases "floatable_list sf (dict_get m ''readout'')")
  case False
  then obtain rs where r: "dict_get m ''readout'' = JList rs" and "\<not> list_all (float_ok sf) rs"
    by (cases "dict_get m ''readout''") auto
  then obtain e where "float_list sf rs = Inl e" using float_list_not_ok by blast
  with r show ?thesis by (simp add: collect_series_known)
next
  case True
  with assms obtain ps where p: "dict_get m ''proto'' = JList ps" and "\<not> list_all (float_ok sf) ps"
    by (cases "dict_get m ''proto''") auto
  then obtain e where e: "float_list sf ps = Inl e" using float_list_not_ok by blast
  from True have "\<exists>e'. float_list sf rs = Inr e'" if "dict_get m ''readout'' = JList rs" for rs
    using that by (auto simp add: float_list_ok)
  with p e show ?thesis
    unfolding collect_series_known
    by (cases "dict_get m ''readout''") auto
qed

text \<open>
  Claim C10, as amended. When \<^verbatim>\<open>readout\<close> or \<^verbatim>\<open>proto\<close> is bound to a list, the outcome
  is the same whatever \<^verbatim>\<open>samples\<close> is bound to, a list included. When \<^verbatim>\<open>float\<close>
  accepts every element of the lists under \<^verbatim>\<open>readout\<close> and \<^verbatim>\<open>proto\<close>, the result is the
  series of those of the two keys that are bound to lists, in the order \<^verbatim>\<open>readout\<close>,
  \<^verbatim>\<open>proto\<close>, and no diagnostic; otherwise the call raises.
\<close>

theorem normalize_recognized:
  assumes some: "is_list (dict_get m ''readout'') \<or> is_list (dict_get m ''proto'')"
  shows "normalize_acc_history sf (JObj (dict_set m ''samples'' s))
           = normalize_acc_history sf (JObj m)
         \<and> (floatable_list sf (dict_get m ''readout'') \<and> floatable_list sf (dict_get m ''proto'')
              \<longrightarrow> normalize_acc_history sf (JObj m)
                    = Inr (Some (series_of sf ''readout'' (dict_get m ''readout'')
                                 @ series_of sf ''proto'' (dict_get m ''proto'')), None))
         \<and> (\<not> (floatable_list sf (dict_get m ''readout'')
                 \<and> floatable_list sf (dict_get m ''proto''))
              \<longrightarrow> (\<exists>e. normalize_acc_history sf (JObj m) = Inl e))"
proof (intro conjI impI)
  let ?m' = "dict_set m ''samples'' s"
  have same: "dict_get ?m' ''readout'' = dict_get m ''readout''"
    "dict_get ?m' ''proto'' = dict_get m ''proto''"
    by (simp_all add: dict_get_dict_set_other)
  then have "collect_series sf ?m' [''readout'', ''proto''] []
               = collect_series sf m [''readout'', ''proto''] []"
    by (simp only: collect_series_known)
  moreover from some same
  have "is_list (dict_get ?m' ''readout'') \<or> is_list (dict_get ?m' ''proto'')"
    by simp
  ultimately show "normalize_acc_history sf (JObj ?m') = normalize_acc_history sf (JObj m)"
    using some by (simp only: normalize_by_recognized)
next
  assume "floatable_list sf (dict_get m ''readout'') \<and> floatable_list sf (dict_get m ''proto'')"
  then have r: "floatable_list sf (dict_get m ''readout'')"
    and p: "floatable_list sf (dict_get m ''proto'')"
    by simp_all
  have "collect_series sf m [''readout'', ''proto''] []
           = Inr (series_of sf ''readout'' (dict_get m ''readout'')
                  @ series_of sf ''proto'' (dict_get m ''proto''))"
    by (rule collect_series_floatable [OF r p])
  with some show "normalize_acc_history sf (JObj m)
      = Inr (Some (series_of sf ''readout'' (dict_get m ''readout'')
                   @ series_of sf ''proto'' (dict_get m ''proto'')), None)"
    by (simp only: normalize_by_recognized sum.case)
next
  assume "\<not> (floatable_list sf (dict_get m ''readout'')
             \<and> floatable_list sf (dict_get m ''proto''))"
  then obtain e where "collect_series sf m [''readout'', ''proto''] [] = Inl e"
    using collect_series_not_floatable by blast
  with some have "normalize_acc_history sf (JObj m) = Inl e"
    by (simp only: normalize_by_recognized sum.case)
  then show "\<exists>e. normalize_acc_history sf (JObj m) = Inl e" by blast
qed

theorem normalize_recognized_witness:
  "normalize_acc_history (\<lambda>s. None)
     (JObj [(''samples'', JList [JInt 1]), (''proto'', JList [JFloat 0.5])])
     = Inr (Some [(''proto'', [0.5])], None)
   \<and> normalize_acc_history (\<lambda>s. None)
     (JObj [(''samples'', JList [JInt 7, JInt 8]), (''proto'', JList [JFloat 0.5])])
     = Inr (Some [(''proto'', [0.5])], None)"
  using normalize_recognized [of "[(''samples'', JList [JInt 1]), (''proto'', JList [JFloat 0.5])]"
      "\<lambda>s. None" "JList [JInt 7, JInt 8]"]
  by (simp add: dict_get_def series_of_def)

text \<open>
  Claim C10 as stated does not hold: with \<^verbatim>\<open>readout\<close> bound to the list \<^verbatim>\<open>[null]\<close> the
  call raises TypeError instead of returning the recognised series.
\<close>

theorem normalize_recognized_counterexample:
  "is_list (dict_get [(''readout'', JList [JNull]), (''samples'', JList [JInt 1])] ''readout'')
   \<and> normalize_acc_history (\<lambda>s. None)
        (JObj [(''readout'', JList [JNull]), (''samples'', JList [JInt 1])]) = Inl TypeError"
  by (simp add: dict_get_def)

section \<open>Properties of the smoothing and of the accuracy-history plot\<close>

text \<open>
  Claim C5. A series of fewer than three values is returned unchanged by \<^verbatim>\<open>_smooth\<close>,
  whatever the window.
\<close>

theorem smooth_short: "length values < 3 \<Longrightarrow> smooth values window = Inr values"
  by (simp add: smooth_def)

theorem smooth_short_witness:
  "length [0.4, 0.9 :: real] < 3 \<and> smooth [0.4, 0.9] 25 = Inr [0.4, 0.9]"
  using smooth_short [of "[0.4, 0.9]" 25] by simp

lemma smooth_policy:
  assumes "10 \<le> length values"
  shows "smooth values (min 25 (max 3 (int (length values) div 8)))
           = Inr (boxcar (window_policy (length values)) values)"
proof -
  let ?n = "length values"
  have w: "min 25 (max 3 (int ?n div 8)) = int (window_policy ?n)"
    by (simp add: window_policy_def zdiv_int)
  have w3: "3 \<le> window_policy ?n" by (simp add: window_policy_def)
  from assms have ne: "values \<noteq> []" by auto
  from w3 have "replicate (window_policy ?n) (1 / real (window_policy ?n)) \<noteq> []"
    by auto
  with assms w3 ne show ?thesis
    unfolding w by (simp add: smooth_def np_convolve_same_def boxcar_def)
qed

lemma history_lines_split:
  "\<exists>drawn'. history_lines series drawn = Inr drawn'
      \<and> filter line_dashed drawn'
          = filter line_dashed drawn @ map overlay_of (filter (\<lambda>s. 10 \<le> length (snd s)) series)
      \<and> filter (\<lambda>l. \<not> line_dashed l) drawn'
          = filter (\<lambda>l. \<not> line_dashed l) drawn
            @ map (\<lambda>s. \<lparr>line_label = fst s, line_xs = [0..<length (snd s)], line_ys = snd s,
                         line_dashed = False\<rparr>) (filter (\<lambda>s. snd s \<noteq> []) series)"
proof (induction series drawn rule: history_lines.induct)
  case (1 drawn)
  show ?case by simp
next
  case (2 label "values" rest drawn)
  show ?case
  proof (cases "values = []")
    case True
    with 2(1) show ?thesis by simp
  next
    case ne: False
    show ?thesis
    proof (cases "10 \<le> length values")
      case True
      note sm = smooth_policy [OF True]
      from 2(2) [OF ne refl refl True sm] ne True sm
      show ?thesis by (simp add: overlay_of_def Let_def)
    next
      case False
      from 2(3) [OF ne refl refl False] ne False
      show ?thesis by (simp add: Let_def)
    qed
  qed
qed

lemma boxcar_length:
  "w \<le> length values \<Longrightarrow> 0 < w \<Longrightarrow> length (boxcar w values) = length values"
  by (auto simp add: boxcar_def conv_full_def)

lemma window_policy_le: "10 \<le> n \<Longrightarrow> window_policy n \<le> n"
  by (simp add: window_policy_def)

text \<open>
  Claim C8. \<^verbatim>\<open>_plot_history_series\<close> returns, and the dashed (smoothed) lines it draws
  are exactly the overlays of the series with at least 10 points, in the order of the
  series: a series with fewer points gets none. The overlay of a series of \<open>n\<close> points
  is \<^verbatim>\<open>_smooth\<close> of the series with the window \<open>min 25 (max 3 (n div 8))\<close>, a boxcar
  average of between 3 and 25 samples, and has \<open>n\<close> points again.
\<close>

theorem history_overlay:
  "\<exists>fig. plot_history_series series title = Inr fig
     \<and> filter line_dashed (fig_lines fig)
         = map overlay_of (filter (\<lambda>s. 10 \<le> length (snd s)) series)
     \<and> (\<forall>s \<in> set series. 10 \<le> length (snd s) \<longrightarrow>
            smooth (snd s) (int (window_policy (length (snd s)))) = Inr (line_ys (overlay_of s))
          \<and> 3 \<le> window_policy (length (snd s)) \<and> window_policy (length (snd s)) \<le> 25
          \<and> length (line_ys (overlay_of s)) = length (snd s))"
proof -
  from history_lines_split [of series "[]"] obtain drawn where
    d: "history_lines series [] = Inr drawn"
    and f: "filter line_dashed drawn = map overlay_of (filter (\<lambda>s. 10 \<le> length (snd s)) series)"
    by auto
  have each: "smooth (snd s) (int (window_policy (length (snd s)))) = Inr (line_ys (overlay_of s))
          \<and> 3 \<le> window_policy (length (snd s)) \<and> window_policy (length (snd s)) \<le> 25
          \<and> length (line_ys (overlay_of s)) = length (snd s)"
    if "10 \<le> length (snd s)" for s :: "string \<times> real list"
  proof -
    have "int (window_policy (length (snd s))) = min 25 (max 3 (int (length (snd s)) div 8))"
      by (simp add: window_policy_def zdiv_int)
    with smooth_policy [OF that]
    have "smooth (snd s) (int (window_policy (length (snd s)))) = Inr (line_ys (overlay_of s))"
      by (simp add: overlay_of_def)
    moreover have "3 \<le> window_policy (length (snd s))" "window_policy (length (snd s)) \<le> 25"
      by (simp_all add: window_policy_def)
    moreover have "length (line_ys (overlay_of s)) = length (snd s)"
      using boxcar_length [OF window_policy_le [OF that]] \<open>3 \<le> window_policy (length (snd s))\<close>
      by (simp add: overlay_of_def)
    ultimately show ?thesis by simp
  qed
  from d f each show ?thesis
    by (simp add: plot_history_series_def)
qed

theorem history_overlay_witness:
  "\<exists>fig. plot_history_series
            [(''readout'', [0, 1, 0, 1, 0, 1, 0, 1, 0, 1]), (''proto'', [1, 1, 1])] ''Phase C''
          = Inr fig
     \<and> map line_label (filter line_dashed (fig_lines fig)) = [''readout (smoothed)'']
     \<and> smooth [0, 1, 0, 1, 0, 1, 0, 1, 0, 1] 3 = Inr (line_ys (hd (filter line_dashed (fig_lines fig))))
     \<and> length (line_ys (hd (filter line_dashed (fig_lines fig)))) = 10"
  using history_overlay
    [of "[(''readout'', [0, 1, 0, 1, 0, 1, 0, 1, 0, 1]), (''proto'', [1, 1, 1])]" "''Phase C''"]
  by (auto simp add: overlay_of_def window_policy_def)

section \<open>Properties of the similarity curves\<close>

lemma nan_or_float_ok: "nan_ok sf v \<Longrightarrow> nan_or_float sf v = Inr (placeholder sf v)"
  by (cases v) (auto split: option.splits)

lemma nan_or_float_list_ok:
  "list_all (nan_ok sf) vs \<Longrightarrow> nan_or_float_list sf vs = Inr (map (placeholder sf) vs)"
proof (induction vs)
  case Nil
  show ?case by simp
next
  case (Cons v vs)
  then have "nan_or_float sf v = Inr (placeholder sf v)"
    and "nan_or_float_list sf vs = Inr (map (placeholder sf) vs)"
    by (simp_all add: nan_or_float_ok)
  then show ?case by simp
qed

lemma placeholder_entry:
  "(v = JNull \<longrightarrow> placeholder sf v = NaN)
   \<and> (is_number v \<longrightarrow> placeholder sf v = Num (num_val v))"
  by (cases v) simp_all

text \<open>One round of the loop, for a summary that is skipped and for one that is plotted.\<close>

lemma similarity_curves_skip:
  assumes "plottable sf summary" and "points_of summary = []"
  shows "similarity_curves sf ((label, summary) # rest) st = similarity_curves sf rest st"
proof -
  from assms(1) obtain similarity where m: "similarity_mean summary = Inr similarity"
    by (auto simp add: plottable_def split: sum.splits)
  with assms have "\<not> py_truthy similarity"
    by (cases similarity) (auto simp add: plottable_def points_of_def)
  with m show ?thesis by simp
qed

lemma similarity_curves_plot:
  assumes "plottable sf summary" and "points_of summary \<noteq> []"
  shows "\<exists>part. similarity_curves sf ((label, summary) # rest) st
           = similarity_curves sf rest
               (fst st @ [curve_of sf (label, summary)], snd st @ [part])"
proof -
  from assms(2) obtain vs where m: "similarity_mean summary = Inr (JList vs)"
    and vs: "points_of summary = vs" "vs \<noteq> []"
    by (auto simp add: points_of_def split: sum.splits json.splits)
  with assms(1) have ok: "list_all (nan_ok sf) vs" and cfg: "config_ok summary"
    by (simp_all add: plottable_def)
  from cfg obtain c where c: "py_get summary ''config'' (JObj []) = Inr (JObj c)"
    by (auto simp add: config_ok_def split: sum.splits elim: is_mapping.elims)
  let ?part = "(label, case map_of c ''kind'' of None \<Rightarrow> JStr ''unknown'' | Some v \<Rightarrow> v,
                case map_of c ''atStep'' of None \<Rightarrow> JInt 0 | Some v \<Rightarrow> v)"
  from m vs c nan_or_float_list_ok [OF ok]
  have "similarity_curves sf ((label, summary) # rest) st
           = similarity_curves sf rest
               (fst st @ [curve_of sf (label, summary)], snd st @ [?part])"
    by (simp add: curve_of_def)
  then show ?thesis by (rule exI)
qed

lemma similarity_curves_all:
  assumes "list_all (\<lambda>s. plottable sf (snd s)) summaries"
  shows "\<exists>parts. similarity_curves sf summaries st
           = Inr (fst st @ map (curve_of sf) (filter (\<lambda>s. points_of (snd s) \<noteq> []) summaries),
                  parts)"
  using assms
proof (induction summaries arbitrary: st)
  case Nil
  show ?case by (cases st) simp
next
  case (Cons s summaries)
  obtain label summary where s: "s = (label, summary)" by (cases s) auto
  from Cons.prems s have here: "plottable sf summary"
    and rest: "list_all (\<lambda>s. plottable sf (snd s)) summaries"
    by simp_all
  show ?case
  proof (cases "points_of summary = []")
    case True
    with Cons.IH [OF rest, of st] similarity_curves_skip [OF here True] s
    show ?thesis by simp
  next
    case False
    from similarity_curves_plot [OF here False] obtain part where
      "similarity_curves sf ((label, summary) # summaries) st
         = similarity_curves sf summaries
             (fst st @ [curve_of sf (label, summary)], snd st @ [part])"
      by blast
    with Cons.IH [OF rest, of "(fst st @ [curve_of sf (label, summary)], snd st @ [part])"] False s
    show ?thesis by simp
  qed
qed

text \<open>
  Claim C7, as amended. For a non-empty list of loaded summaries each of which can be
  plotted (and, when it is the only one, has a configuration that gives a window),
  \<^verbatim>\<open>plot_perturbation_sets\<close> reaches its first figure, and the curves of that figure are
  those of the summaries with a non-empty \<^verbatim>\<open>similarityByOffset.mean\<close> list, in order.
  The curve of a summary has as many points as the list has entries: at the index of
  a null it holds NaN, at the index of a number it holds that number.
\<close>

theorem similarity_nulls:
  assumes "summaries \<noteq> []"
    and "list_all (\<lambda>s. plottable sf (snd s)) summaries"
    and "length summaries = 1 \<longrightarrow> window_ok (snd (hd summaries))"
  shows "\<exists>fig. plot_similarity sf summaries = Inr (Some fig)
           \<and> sim_curves fig
               = map (curve_of sf) (filter (\<lambda>s. points_of (snd s) \<noteq> []) summaries)
           \<and> (\<forall>s \<in> set summaries.
                 curve_label (curve_of sf s) = fst s
               \<and> length (curve_ys (curve_of sf s)) = length (points_of (snd s))
               \<and> (\<forall>i < length (points_of (snd s)).
                     (points_of (snd s) ! i = JNull \<longrightarrow> curve_ys (curve_of sf s) ! i = NaN)
                   \<and> (is_number (points_of (snd s) ! i) \<longrightarrow>
                        curve_ys (curve_of sf s) ! i = Num (num_val (points_of (snd s) ! i)))))"
proof -
  let ?curves = "map (curve_of sf) (filter (\<lambda>s. points_of (snd s) \<noteq> []) summaries)"
  from similarity_curves_all [OF assms(2), of "([], [])"] obtain parts where
    loop: "similarity_curves sf summaries ([], []) = Inr (?curves, parts)"
    by auto
  have "\<exists>fig. plot_similarity sf summaries = Inr (Some fig) \<and> sim_curves fig = ?curves"
  proof (cases "length summaries = 1")
    case True
    with assms(3) have "window_ok (snd (hd summaries))" by simp
    then obtain config duration right_end where
      "py_get (snd (hd summaries)) ''config'' (JObj []) = Inr config"
      "py_get config ''durationSteps'' (JInt 1) = Inr duration"
      "py_max_half duration = Inr right_end"
      by (auto simp add: window_ok_def split: sum.splits)
    with True loop assms(1) show ?thesis
      by (simp add: plot_similarity_def)
  next
    case False
    with loop assms(1) show ?thesis
      by (simp add: plot_similarity_def)
  qed
  moreover have "curve_label (curve_of sf s) = fst s
               \<and> length (curve_ys (curve_of sf s)) = length (points_of (snd s))
               \<and> (\<forall>i < length (points_of (snd s)).
                     (points_of (snd s) ! i = JNull \<longrightarrow> curve_ys (curve_of sf s) ! i = NaN)
                   \<and> (is_number (points_of (snd s) ! i) \<longrightarrow>
                        curve_ys (curve_of sf s) ! i = Num (num_val (points_of (snd s) ! i))))"
    for s :: "string \<times> json"
    using placeholder_entry by (simp add: curve_of_def)
  ultimately show ?thesis by blast
qed

theorem similarity_nulls_witness:
  "\<exists>fig. plot_similarity (\<lambda>s. None)
            [(''baseline'',
              JObj [(''config'', JObj [(''kind'', JStr ''pulse''), (''atStep'', JInt 5),
                                      (''durationSteps'', JInt 3)]),
                    (''similarityByOffset'',
                     JObj [(''std'', JList []),
                           (''mean'', JList [JFloat 1.0, JFloat 0.8, JNull, JFloat 0.6])])])]
          = Inr (Some fig)
     \<and> sim_curves fig
         = [\<lparr>curve_label = ''baseline'', curve_xs = [0, 1, 2, 3],
              curve_ys = [Num 1.0, Num 0.8, NaN, Num 0.6]\<rparr>]"
proof -
  let ?summary = "JObj [(''config'', JObj [(''kind'', JStr ''pulse''), (''atStep'', JInt 5),
                                      (''durationSteps'', JInt 3)]),
                    (''similarityByOffset'',
                     JObj [(''std'', JList []),
                           (''mean'', JList [JFloat 1.0, JFloat 0.8, JNull, JFloat 0.6])])]"
  have mean: "similarity_mean ?summary = Inr (JList [JFloat 1.0, JFloat 0.8, JNull, JFloat 0.6])"
    by (simp add: similarity_mean_def)
  then have pts: "points_of ?summary = [JFloat 1.0, JFloat 0.8, JNull, JFloat 0.6]"
    by (simp add: points_of_def)
  have "[(''baseline'', ?summary)] \<noteq> []" by simp
  moreover from mean have "list_all (\<lambda>s. plottable (\<lambda>s. None) (snd s)) [(''baseline'', ?summary)]"
    by (simp add: plottable_def config_ok_def)
  moreover have "length [(''baseline'', ?summary)] = 1 \<longrightarrow> window_ok (snd (hd [(''baseline'', ?summary)]))"
    by (simp add: window_ok_def)
  ultimately obtain fig where
    run: "plot_similarity (\<lambda>s. None) [(''baseline'', ?summary)] = Inr (Some fig)"
    and curves: "sim_curves fig
        = map (curve_of (\<lambda>s. None))
            (filter (\<lambda>s. points_of (snd s) \<noteq> []) [(''baseline'', ?summary)])"
    using similarity_nulls [of "[(''baseline'', ?summary)]" "\<lambda>s. None"] by blast
  from curves pts have "sim_curves fig
         = [\<lparr>curve_label = ''baseline'', curve_xs = [0, 1, 2, 3],
              curve_ys = [Num 1.0, Num 0.8, NaN, Num 0.6]\<rparr>]"
    by (simp add: curve_of_def upt_rec)
  with run show ?thesis by blast
qed

text \<open>
  Claim C7 as stated does not hold for every summary whose mean list contains nulls:
  with \<^verbatim>\<open>config\<close> bound to null the call raises AttributeError after the curve is
  handed to the plot and before the figure is saved, and a mean list with the int
  \<^verbatim>\<open>10**400\<close> raises OverflowError, so nothing is rendered.
\<close>

theorem similarity_nulls_counterexample:
  "plot_similarity (\<lambda>s. None)
     [(''baseline'',
       JObj [(''similarityByOffset'',
              JObj [(''mean'', JList [JFloat 1.0, JFloat 0.8, JNull, JFloat 0.6])]),
             (''config'', JNull)])]
     = Inl AttributeError
   \<and> plot_similarity (\<lambda>s. None)
     [(''baseline'',
       JObj [(''similarityByOffset'', JObj [(''mean'', JList [JInt (10 ^ 400), JNull])])])]
     = Inl OverflowError"
  by (simp add: plot_similarity_def similarity_mean_def float_limit_def)

section \<open>Properties of the perturbation sets\<close>

lemma collect_sets_map:
  "collect_sets summaries trials labels idxs sets
     = sets @ map (set_entry summaries trials labels)
                (filter (\<lambda>i. i < max (length summaries) (length trials)) idxs)"
proof (induction idxs arbitrary: sets)
  case Nil
  show ?case by simp
next
  case (Cons idx rest)
  show ?case
  proof (cases "idx < max (length summaries) (length trials)")
    case True
    then have "\<not> ((if idx < length summaries then Some (summaries ! idx) else None) = None
              \<and> (if idx < length trials then Some (trials ! idx) else None) = None)"
      by auto
    with True show ?thesis
      by (simp add: Cons.IH set_entry_def Let_def)
  next
    case False
    then have "\<not> idx < length summaries" and "\<not> idx < length trials"
      by auto
    with False show ?thesis
      by (simp add: Cons.IH)
  qed
qed

lemma filter_less_upt: "m \<le> n \<Longrightarrow> filter (\<lambda>i. i < m) [0..<n] = [0..<m]"
proof (induction n)
  case 0
  then show ?case by simp
next
  case (Suc n)
  show ?case
  proof (cases "m = Suc n")
    case True
    have "filter (\<lambda>i. i < Suc n) [0..<Suc n] = [0..<Suc n]"
      by (rule filter_True) simp
    with True show ?thesis by simp
  next
    case False
    with Suc.prems have "m \<le> n" by simp
    with Suc.IH show ?thesis by simp
  qed
qed

lemma perturb_sets_map:
  "perturb_sets ps pt pl
     = map (set_entry (option_parts ps) (option_parts pt) (option_parts pl))
         [0..<max (length (option_parts ps)) (length (option_parts pt))]"
proof -
  let ?m = "max (length (option_parts ps)) (length (option_parts pt))"
  let ?n = "max (max ?m (length (option_parts pl))) 1"
  have "filter (\<lambda>i. i < ?m) [0..<?n] = [0..<?m]"
    by (rule filter_less_upt) linarith
  then show ?thesis
    by (simp add: perturb_sets_def collect_sets_map Let_def)
qed

lemma option_parts_nonempty: "p \<in> set (option_parts arg) \<Longrightarrow> p \<noteq> []"
  by (cases arg) (auto simp: option_parts_def)

lemma derive_label_some:
  "p \<noteq> [] \<Longrightarrow> derive_label (Some p) (''set-'' @ str_nat (idx + 1)) = derived_label p idx"
  by (simp add: derive_label_def derived_label_def Let_def)

text \<open>
  Claim C9, as amended. A set at index \<open>idx\<close> that has a summary or a trials path and no
  \<^verbatim>\<open>--perturbLabel\<close> entry is the \<open>idx\<close>-th set handed to the plot, and its label comes
  from its summary path (from its trials path when it has no summary): the name of the
  parent directory of that path, or, when the parent directory is called \<^verbatim>\<open>perturb\<close>,
  the name of the directory above it; when that name is empty the label is \<open>set-\<close>
  followed by \<open>idx + 1\<close>.
\<close>

theorem missing_label_derived:
  assumes here: "idx < max (length (option_parts ps)) (length (option_parts pt))"
    and missing: "length (option_parts pl) \<le> idx"
  shows "idx < length (perturb_sets ps pt pl)
         \<and> fst (perturb_sets ps pt pl ! idx)
             = derived_label (label_path (option_parts ps) (option_parts pt) idx) idx"
proof -
  let ?s = "option_parts ps" and ?t = "option_parts pt" and ?l = "option_parts pl"
  let ?sp = "if idx < length ?s then Some (?s ! idx) else None"
  let ?tp = "if idx < length ?t then Some (?t ! idx) else None"
  have len: "length (perturb_sets ps pt pl) = max (length ?s) (length ?t)"
    by (simp add: perturb_sets_map)
  from here have nth: "perturb_sets ps pt pl ! idx = set_entry ?s ?t ?l idx"
    by (simp add: perturb_sets_map)
  have path: "path_or ?sp ?tp = Some (label_path ?s ?t idx)"
    and ne: "label_path ?s ?t idx \<noteq> []"
  proof -
    show "path_or ?sp ?tp = Some (label_path ?s ?t idx)"
    proof (cases "idx < length ?s")
      case True
      then have "?s ! idx \<noteq> []" using option_parts_nonempty nth_mem by blast
      with True show ?thesis by (simp add: path_or_def label_path_def)
    next
      case False
      with here have "idx < length ?t" by auto
      with False show ?thesis by (simp add: path_or_def label_path_def)
    qed
    show "label_path ?s ?t idx \<noteq> []"
    proof (cases "idx < length ?s")
      case True
      then show ?thesis using option_parts_nonempty nth_mem by (simp add: label_path_def) blast
    next
      case False
      with here have "idx < length ?t" by auto
      with False show ?thesis using option_parts_nonempty nth_mem by (simp add: label_path_def) blast
    qed
  qed
  from missing have "fst (set_entry ?s ?t ?l idx)
      = derive_label (path_or ?sp ?tp) (''set-'' @ str_nat (idx + 1))"
    by (simp add: set_entry_def Let_def)
  also have "\<dots> = derived_label (label_path ?s ?t idx) idx"
    unfolding path by (rule derive_label_some [OF ne])
  finally show ?thesis using here len nth by simp
qed

theorem missing_label_derived_witness:
  "fst (perturb_sets (Some [''runs/ring/perturb/perturb_summary.json,runs/snake/perturb_summary.json''])
          (Some [''runs/ring/perturb/trials.csv'']) (Some [''first'']) ! 1)
     = ''snake''"
  using missing_label_derived
    [of 1 "Some [''runs/ring/perturb/perturb_summary.json,runs/snake/perturb_summary.json'']"
        "Some [''runs/ring/perturb/trials.csv'']" "Some [''first'']"]
  by (simp add: option_parts_def label_path_def derived_label_def dirname_def basename_def
        after_last_slash_def rstrip_slash_def Let_def)

text \<open>
  Claim C9 as stated does not hold: the label is not determined by the name of the
  parent directory. Two summary paths whose parent directories are both called
  \<^verbatim>\<open>perturb\<close> get the labels \<^verbatim>\<open>ring\<close> and \<^verbatim>\<open>snake\<close>, the names of the directories
  above; and a summary path without a directory gets \<open>set-1\<close>, even when the trials
  path of the set has a parent directory.
\<close>

theorem label_not_parent_counterexample:
  "basename (dirname ''runs/ring/perturb/perturb_summary.json'') = ''perturb''
   \<and> basename (dirname ''runs/snake/perturb/perturb_summary.json'') = ''perturb''
   \<and> fst (perturb_sets (Some [''runs/ring/perturb/perturb_summary.json'']) None None ! 0) = ''ring''
   \<and> fst (perturb_sets (Some [''runs/snake/perturb/perturb_summary.json'']) None None ! 0) = ''snake''
   \<and> fst (perturb_sets (Some [''runs/ring/perturb/perturb_summary.json'']) None None ! 0)
       \<noteq> basename (dirname ''runs/ring/perturb/perturb_summary.json'')
   \<and> fst (perturb_sets (Some [''perturb_summary.json'']) (Some [''runs/ring/trials.csv'']) None ! 0)
       = ''set-1''
   \<and> basename (dirname ''perturb_summary.json'') = []"
  by code_simp

section \<open>Properties of the binned average\<close>

lemma add_at_other:
  assumes "r' \<noteq> r \<or> c' \<noteq> c" and "r' < length a"
  shows "add_at a r c v ! r' ! c' = a ! r' ! c'"
proof (cases "r' = r")
  case True
  with assms have "c' \<noteq> c" by simp
  with True assms(2) show ?thesis by (simp add: add_at_def)
next
  case False
  then show ?thesis by (simp add: add_at_def)
qed

lemma add_at_square:
  assumes sq: "square n a"
  shows "square n (add_at a r c v)"
proof -
  have len: "length (add_at a r c v) = length a"
    by (simp add: add_at_def)
  have row: "length (add_at a r c v ! i) = length (a ! i)" if "i < length a" for i
    using that by (cases "i = r") (simp_all add: add_at_def)
  from sq len row show ?thesis
    by (simp add: square_def list_all_length)
qed

lemma np_index_bin:
  assumes "np_index bins (bin_index edges bins v) = Inr k"
  shows "int k = bin_index edges bins v"
proof -
  have "bin_index edges bins v \<le> int bins - 1"
    by (simp add: bin_index_def np_clip_def)
  moreover have "0 \<le> bin_index edges bins v \<or> bins = 0"
    by (auto simp add: bin_index_def np_clip_def)
  ultimately show ?thesis using assms
    by (auto simp add: np_index_def split: if_splits)
qed

lemma np_index_bin_ok:
  "0 < bins \<Longrightarrow> \<exists>k. np_index bins (bin_index edges bins v) = Inr k"
  by (auto simp add: np_index_def bin_index_def np_clip_def)

lemma accumulate_untouched:
  assumes "accumulate x_edges y_edges bins samples (grid, counts) = Inr (grid', counts')"
    and "square bins grid" and "square bins counts"
    and "r < bins" and "c < bins"
    and "\<forall>s \<in> set samples. \<not> contributes x_edges y_edges bins r c s"
  shows "grid' ! r ! c = grid ! r ! c \<and> counts' ! r ! c = counts ! r ! c
         \<and> square bins grid' \<and> square bins counts'"
  using assms
proof (induction samples arbitrary: grid counts)
  case Nil
  then show ?case by simp
next
  case (Cons s rest)
  obtain xv yv v where s: "s = (xv, yv, v)" by (cases s) auto
  from Cons.prems(1) s obtain r0 c0 where
    r0: "np_index bins (bin_index y_edges bins yv) = Inr r0"
    and c0: "np_index bins (bin_index x_edges bins xv) = Inr c0"
    and rest: "accumulate x_edges y_edges bins rest (add_at grid r0 c0 v, add_at counts r0 c0 1)
                 = Inr (grid', counts')"
    by (auto simp add: Let_def split: sum.splits)
  from Cons.prems(6) s have "\<not> contributes x_edges y_edges bins r c (xv, yv, v)" by simp
  with np_index_bin [OF r0] np_index_bin [OF c0] have ne: "r \<noteq> r0 \<or> c \<noteq> c0"
    by (auto simp add: contributes_def)
  from Cons.prems(2,3) have sq: "square bins (add_at grid r0 c0 v)" "square bins (add_at counts r0 c0 1)"
    by (simp_all add: add_at_square)
  from Cons.prems(6) have "\<forall>s \<in> set rest. \<not> contributes x_edges y_edges bins r c s" by simp
  from Cons.IH [OF rest sq Cons.prems(4,5) this]
  have ih: "grid' ! r ! c = add_at grid r0 c0 v ! r ! c"
       "counts' ! r ! c = add_at counts r0 c0 1 ! r ! c"
       "square bins grid'" "square bins counts'"
    by simp_all
  from Cons.prems(2,3,4) have "r < length grid" "r < length counts"
    by (simp_all add: square_def)
  with ne ih show ?case
    by (simp add: add_at_other)
qed

lemma accumulate_returns:
  "0 < bins \<Longrightarrow> \<exists>res. accumulate x_edges y_edges bins samples st = Inr res"
proof (induction samples arbitrary: st)
  case Nil
  show ?case by (cases st) simp
next
  case (Cons s rest)
  obtain xv yv v where s: "s = (xv, yv, v)" by (cases s) auto
  obtain grid counts where st: "st = (grid, counts)" by (cases st) auto
  from Cons.prems obtain r0 c0 where
    "np_index bins (bin_index y_edges bins yv) = Inr r0"
    "np_index bins (bin_index x_edges bins xv) = Inr c0"
    using np_index_bin_ok by blast
  with Cons.IH [OF Cons.prems] s st show ?case
    by (simp add: Let_def)
qed

lemma divide_grid_nth:
  assumes "square n grid" and "square n counts" and "r < n" and "c < n"
  shows "divide_grid grid (clamp_counts counts) ! r ! c
           = np_divide (grid ! r ! c) (if counts ! r ! c = 0 then 1 else counts ! r ! c)"
proof -
  from assms have "length (grid ! r) = n" "length (counts ! r) = n" "length grid = n" "length counts = n"
    by (simp_all add: square_def list_all_length)
  with assms(3,4) show ?thesis
    by (simp add: divide_grid_def clamp_counts_def)
qed

lemma square_zeros: "square n (replicate n (replicate n 0))"
  by (simp add: square_def list_all_length)

text \<open>
  Claim C6. \<^verbatim>\<open>binned_stat\<close> returns for non-empty \<open>x\<close> and \<open>y\<close> and at least one bin,
  and in what it returns every cell that no sample of \<^verbatim>\<open>zip(x, y, values)\<close> falls into
  is the number 0 (not the nan that 0 / 0 would give): its sum is 0 and its count,
  being 0, is replaced by 1 before the division.
\<close>

theorem empty_cell_zero:
  "(x \<noteq> [] \<and> y \<noteq> [] \<and> 0 < bins \<longrightarrow> (\<exists>res. binned_stat x y vals bins = Inr res))
   \<and> (\<forall>heat x_edges y_edges r c.
         binned_stat x y vals bins = Inr (heat, x_edges, y_edges) \<and> r < bins \<and> c < bins
         \<and> (\<forall>s \<in> set (zip x (zip y vals)). \<not> contributes x_edges y_edges bins r c s)
         \<longrightarrow> heat ! r ! c = Num 0)"
proof (intro conjI allI impI)
  assume "x \<noteq> [] \<and> y \<noteq> [] \<and> 0 < bins"
  then obtain x0 xs y0 ys where xy: "x = x0 # xs" "y = y0 # ys" and b: "0 < bins"
    by (cases x; cases y) auto
  let ?xe = "np_linspace (fold min xs x0) (fold max xs x0) bins"
  let ?ye = "np_linspace (fold min ys y0) (fold max ys y0) bins"
  let ?z = "replicate bins (replicate bins (0::real))"
  from accumulate_returns [OF b] obtain res where
    "accumulate ?xe ?ye bins (zip x (zip y vals)) (?z, ?z) = Inr res"
    by blast
  with xy show "\<exists>res. binned_stat x y vals bins = Inr res"
    by (cases res) (simp add: binned_stat_def Let_def)
next
  fix heat x_edges y_edges r c
  assume a: "binned_stat x y vals bins = Inr (heat, x_edges, y_edges) \<and> r < bins \<and> c < bins
         \<and> (\<forall>s \<in> set (zip x (zip y vals)). \<not> contributes x_edges y_edges bins r c s)"
  let ?z = "replicate bins (replicate bins (0::real))"
  from a obtain grid' counts' where
    acc: "accumulate x_edges y_edges bins (zip x (zip y vals)) (?z, ?z) = Inr (grid', counts')"
    and heat: "heat = divide_grid grid' (clamp_counts counts')"
    unfolding binned_stat_def Let_def
    by (auto split: sum.splits prod.splits)
  from a have rc: "r < bins" "c < bins"
    and none: "\<forall>s \<in> set (zip x (zip y vals)). \<not> contributes x_edges y_edges bins r c s"
    by simp_all
  from accumulate_untouched [OF acc square_zeros square_zeros rc none] rc
  have "grid' ! r ! c = 0" "counts' ! r ! c = 0" "square bins grid'" "square bins counts'"
    by simp_all
  with divide_grid_nth [of bins grid' counts' r c] rc heat
  show "heat ! r ! c = Num 0"
    by (simp add: np_divide_def)
qed

theorem empty_cell_zero_witness:
  "\<exists>heat x_edges y_edges.
     binned_stat [0, 1, 2, 3] [0, 1, 2, 3] [0.5, 1, 1, 1] 3 = Inr (heat, x_edges, y_edges)
     \<and> list_all (\<lambda>s. \<not> contributes x_edges y_edges 3 0 1 s)
           (zip [0, 1, 2, 3] (zip [0, 1, 2, 3] [0.5, 1, 1, 1]))
     \<and> heat ! 0 ! 1 = Num 0"
proof -
  let ?x = "[0, 1, 2, 3 :: real]" and ?vals = "[0.5, 1, 1, 1 :: real]"
  let ?heat = "[[Num 0.5, Num 0, Num 0], [Num 0, Num 1, Num 0], [Num 0, Num 0, Num 1]]"
  have run: "binned_stat ?x ?x ?vals 3 = Inr (?heat, ?x, ?x)"
    by code_simp
  have none: "\<forall>s \<in> set (zip ?x (zip ?x ?vals)). \<not> contributes ?x ?x 3 0 1 s"
    by code_simp
  have "(0::nat) < 3" and "(1::nat) < 3" by simp_all
  with run none have "?heat ! 0 ! 1 = Num 0"
    using empty_cell_zero [of ?x ?x 3 ?vals] by blast
  moreover from none have "list_all (\<lambda>s. \<not> contributes ?x ?x 3 0 1 s) (zip ?x (zip ?x ?vals))"
    by (simp only: list_all_iff)
  ultimately show ?thesis using run by blast
qed

section \<open>Properties of the topology generator\<close>

lemma mod_neg_shift:
  fixes x n :: int
  assumes "- n < x" "x < 0"
  shows "x mod n = x + n"
proof -
  have "x mod n = (x + n) mod n" by simp
  also from assms have "\<dots> = x + n" by (intro mod_pos_pos_trivial) simp_all
  finally show ?thesis .
qed

lemma modular_dist_ge:
  assumes "b \<le> a" "a < int n" "0 \<le> b"
  shows "modular_dist n a b = min (a - b) (int n - (a - b))"
proof (cases "a = b")
  case True
  with assms show ?thesis by (simp add: modular_dist_def)
next
  case False
  with assms have pos: "0 < a - b" "a - b < int n" by simp_all
  then have "(a - b) mod int n = a - b" by simp
  moreover from pos have "(b - a) mod int n = b - a + int n"
    by (intro mod_neg_shift) simp_all
  ultimately show ?thesis by (simp add: modular_dist_def)
qed

lemma modular_dist_sym: "modular_dist n a b = modular_dist n b a"
  by (simp add: modular_dist_def min.commute)

lemma ring_dist_modular:
  assumes "0 \<le> a" "a < int n" "0 \<le> b" "b < int n"
  shows "topo_dist ''Ring'' n a b = modular_dist n a b"
proof (cases "b \<le> a")
  case True
  with assms show ?thesis
    by (simp add: modular_dist_ge topo_dist_def Let_def)
next
  case False
  then have "a \<le> b" by simp
  with assms have "modular_dist n b a = min (b - a) (int n - (b - a))"
    by (simp add: modular_dist_ge)
  with False show ?thesis
    by (simp add: modular_dist_sym [of n a b] topo_dist_def Let_def)
qed

lemma topo_dist_digit_dist:
  assumes "0 \<le> a" "a < int n" "0 \<le> b" "b < int n"
  shows "topo_dist t n a b = digit_dist t n a b"
  using ring_dist_modular [OF assms]
  by (simp add: digit_dist_def) (simp add: topo_dist_def linear_dist_def Let_def)

lemma digit_dist_sym: "digit_dist t n a b = digit_dist t n b a"
  by (simp add: digit_dist_def modular_dist_sym linear_dist_def abs_minus_commute)

lemma neuron_prefs_range:
  "x \<in> set (neuron_prefs n_digits per) \<Longrightarrow> 0 \<le> x \<and> x < int n_digits"
  by (auto simp add: neuron_prefs_def)

lemma neuron_prefs_length: "length (neuron_prefs n_digits per) = n_digits * per"
  by (simp add: neuron_prefs_def length_concat comp_def sum_list_triv)

lemma set_at_same:
  "r < length a \<Longrightarrow> c < length (a ! r) \<Longrightarrow> set_at a r c v ! r ! c = v"
  by (simp add: set_at_def)

lemma set_at_other:
  assumes "r' \<noteq> r \<or> c' \<noteq> c" and "r' < length a"
  shows "set_at a r c v ! r' ! c' = a ! r' ! c'"
proof (cases "r' = r")
  case True
  with assms have "c' \<noteq> c" by simp
  with True assms(2) show ?thesis by (simp add: set_at_def)
next
  case False
  then show ?thesis by (simp add: set_at_def)
qed

lemma set_at_square:
  assumes sq: "square n a"
  shows "square n (set_at a r c v)"
proof -
  have len: "length (set_at a r c v) = length a"
    by (simp add: set_at_def)
  have row: "length (set_at a r c v ! i) = length (a ! i)" if "i < length a" for i
    using that by (cases "i = r") (simp_all add: set_at_def)
  from sq len row show ?thesis
    by (simp add: square_def list_all_length)
qed

lemma cell_result:
  assumes run: "cell t d prefs noise i j (w, k) = Inr (w', k')"
    and sq: "square n w" and i: "i < n" and j: "j < n"
  shows "square n w'"
    and "weight_at noise (topo_dist t d (prefs ! i) (prefs ! j)) (w' ! i ! j)"
    and "\<And>r c. r < n \<Longrightarrow> r \<noteq> i \<or> c \<noteq> j \<Longrightarrow> w' ! r ! c = w ! r ! c"
    and "i < length prefs" and "j < length prefs"
proof -
  from run show ip: "i < length prefs" and jp: "j < length prefs"
    by (auto simp add: cell_def split: if_splits)
  let ?dist = "topo_dist t d (prefs ! i) (prefs ! j)"
  from sq i j have li: "i < length w" and lj: "j < length (w ! i)"
    by (simp_all add: square_def list_all_length)
  from run ip jp obtain v where w': "w' = set_at w i j v" and v: "weight_at noise ?dist v"
    by (auto simp add: cell_def Let_def weight_at_def split: if_splits)
  from w' sq show "square n w'" by (simp add: set_at_square)
  from w' v li lj show "weight_at noise ?dist (w' ! i ! j)" by (simp add: set_at_same)
  fix r c assume "r < n" "r \<noteq> i \<or> c \<noteq> j"
  with sq w' show "w' ! r ! c = w ! r ! c"
    by (simp add: set_at_other square_def)
qed


lemma inner_loop_result:
  assumes "inner_loop t d prefs noise i js (w, k) = Inr (w', k')"
    and "square n w" and "i < n" and "\<forall>j \<in> set js. j < n" and "distinct js"
  shows "square n w'
         \<and> (\<forall>j \<in> set js. weight_at noise (topo_dist t d (prefs ! i) (prefs ! j)) (w' ! i ! j)
                \<and> i < length prefs \<and> j < length prefs)
         \<and> (\<forall>r c. r < n \<longrightarrow> r \<noteq> i \<or> c \<notin> set js \<longrightarrow> w' ! r ! c = w ! r ! c)"
  using assms
proof (induction js arbitrary: w k)
  case Nil
  then show ?case by simp
next
  case (Cons j js)
  from Cons.prems(1) obtain w1 k1 where
    c: "cell t d prefs noise i j (w, k) = Inr (w1, k1)"
    and rest: "inner_loop t d prefs noise i js (w1, k1) = Inr (w', k')"
    by (auto split: sum.splits)
  from Cons.prems(4) have j: "j < n" and js: "\<forall>j \<in> set js. j < n" by simp_all
  from Cons.prems(5) have fresh: "j \<notin> set js" and djs: "distinct js" by simp_all
  note cr = cell_result [OF c Cons.prems(2) Cons.prems(3) j]
  from Cons.IH [OF rest cr(1) Cons.prems(3) js djs]
  have sq: "square n w'"
    and filled: "\<forall>j \<in> set js. weight_at noise (topo_dist t d (prefs ! i) (prefs ! j)) (w' ! i ! j)
                \<and> i < length prefs \<and> j < length prefs"
    and frame: "\<And>r c. r < n \<Longrightarrow> r \<noteq> i \<or> c \<notin> set js \<Longrightarrow> w' ! r ! c = w1 ! r ! c"
    by simp_all
  from frame [of i j] fresh Cons.prems(3) have "w' ! i ! j = w1 ! i ! j" by simp
  with cr(2) have here: "weight_at noise (topo_dist t d (prefs ! i) (prefs ! j)) (w' ! i ! j)"
    by simp
  have "w' ! r ! c = w ! r ! c" if "r < n" and "r \<noteq> i \<or> c \<notin> set (j # js)" for r c
  proof -
    from that have "w' ! r ! c = w1 ! r ! c" by (intro frame) auto
    also from that have "\<dots> = w ! r ! c" by (intro cr(3)) auto
    finally show ?thesis .
  qed
  with sq filled here cr(4,5) show ?case by simp
qed

lemma outer_loop_result:
  assumes "outer_loop t d prefs noise n is (w, k) = Inr (w', k')"
    and "square n w" and "\<forall>i \<in> set is. i < n" and "distinct is"
  shows "square n w'
         \<and> (\<forall>i \<in> set is. \<forall>j < n.
                weight_at noise (topo_dist t d (prefs ! i) (prefs ! j)) (w' ! i ! j)
                \<and> i < length prefs \<and> j < length prefs)
         \<and> (\<forall>r c. r < n \<longrightarrow> r \<notin> set is \<longrightarrow> w' ! r ! c = w ! r ! c)"
  using assms
proof (induction "is" arbitrary: w k)
  case Nil
  then show ?case by simp
next
  case (Cons i "is")
  from Cons.prems(1) obtain w1 k1 where
    row: "inner_loop t d prefs noise i [0..<n] (w, k) = Inr (w1, k1)"
    and rest: "outer_loop t d prefs noise n is (w1, k1) = Inr (w', k')"
    by (auto split: sum.splits)
  from Cons.prems(3) have i: "i < n" and "is": "\<forall>i \<in> set is. i < n" by simp_all
  from Cons.prems(4) have fresh: "i \<notin> set is" and dis: "distinct is" by simp_all
  from inner_loop_result [OF row Cons.prems(2) i]
  have sq1: "square n w1"
    and row_done: "\<forall>j < n. weight_at noise (topo_dist t d (prefs ! i) (prefs ! j)) (w1 ! i ! j)
                \<and> i < length prefs \<and> j < length prefs"
    and row_frame: "\<And>r c. r < n \<Longrightarrow> r \<noteq> i \<Longrightarrow> w1 ! r ! c = w ! r ! c"
    by simp_all
  from Cons.IH [OF rest sq1 "is" dis]
  have sq: "square n w'"
    and filled: "\<forall>i \<in> set is. \<forall>j < n.
                weight_at noise (topo_dist t d (prefs ! i) (prefs ! j)) (w' ! i ! j)
                \<and> i < length prefs \<and> j < length prefs"
    and frame: "\<And>r c. r < n \<Longrightarrow> r \<notin> set is \<Longrightarrow> w' ! r ! c = w1 ! r ! c"
    by simp_all
  from frame [OF i fresh] row_done
  have here: "\<forall>j < n. weight_at noise (topo_dist t d (prefs ! i) (prefs ! j)) (w' ! i ! j)
                \<and> i < length prefs \<and> j < length prefs"
    by simp
  have "w' ! r ! c = w ! r ! c" if "r < n" and "r \<notin> set (i # is)" for r c
  proof -
    from that have "w' ! r ! c = w1 ! r ! c" by (intro frame) auto
    also from that have "\<dots> = w ! r ! c" by (intro row_frame) auto
    finally show ?thesis .
  qed
  with sq filled here show ?case by simp
qed

lemma cell_returns:
  "i < length prefs \<Longrightarrow> j < length prefs \<Longrightarrow> \<exists>st'. cell t d prefs noise i j st = Inr st'"
  by (simp add: cell_def Let_def)

lemma inner_loop_returns:
  "i < length prefs \<Longrightarrow> \<forall>j \<in> set js. j < length prefs
     \<Longrightarrow> \<exists>st'. inner_loop t d prefs noise i js st = Inr st'"
proof (induction js arbitrary: st)
  case Nil
  show ?case by simp
next
  case (Cons j js)
  from Cons.prems have "i < length prefs" and "j < length prefs" by simp_all
  from cell_returns [OF this] obtain st1 where "cell t d prefs noise i j st = Inr st1"
    by blast
  with Cons show ?case by simp
qed

lemma outer_loop_returns:
  "n \<le> length prefs \<Longrightarrow> \<forall>i \<in> set is. i < n
     \<Longrightarrow> \<exists>st'. outer_loop t d prefs noise n is st = Inr st'"
proof (induction "is" arbitrary: st)
  case Nil
  show ?case by simp
next
  case (Cons i "is")
  then have "i < length prefs" and "\<forall>j \<in> set [0..<n]. j < length prefs" by auto
  then obtain st1 where "inner_loop t d prefs noise i [0..<n] st = Inr st1"
    using inner_loop_returns by blast
  with Cons show ?case by simp
qed


lemma weight_at_close:
  assumes "weight_at noise dd a" and "weight_at noise dd b" and "\<forall>k. \<bar>noise k\<bar> \<le> eps"
  shows "\<bar>a - b\<bar> \<le> 2 * eps"
proof -
  have two: "\<bar>(c + noise k) - (c + noise k')\<bar> \<le> 2 * eps" for c k k'
  proof -
    from assms(3) have "\<bar>noise k\<bar> \<le> eps" and "\<bar>noise k'\<bar> \<le> eps" by simp_all
    then show ?thesis by linarith
  qed
  from assms(3) have "\<bar>noise 0\<bar> \<le> eps" by simp
  then have "0 \<le> eps" by linarith
  with assms(1,2) two show ?thesis
    by (auto simp add: weight_at_def split: if_splits)
qed

lemma generate_topology_returns:
  assumes "0 < n_digits" and "n_digits dvd n_neurons"
  shows "\<exists>w prefs. generate_topology t n_neurons n_digits noise = Inr (w, prefs)"
proof -
  from assms have pos: "n_digits \<noteq> 0"
    and len: "n_neurons \<le> length (neuron_prefs n_digits (n_neurons div n_digits))"
    by (simp_all add: neuron_prefs_length)
  let ?z = "replicate n_neurons (replicate n_neurons (0::real))"
  have "\<forall>i \<in> set [0..<n_neurons]. i < n_neurons" by simp
  from outer_loop_returns [OF len this] obtain st where
    "outer_loop t n_digits (neuron_prefs n_digits (n_neurons div n_digits)) noise n_neurons
       [0..<n_neurons] (?z, 0) = Inr st"
    by blast
  with pos show ?thesis
    by (simp add: generate_topology_def Let_def)
qed

lemma generate_topology_result:
  assumes run: "generate_topology t n_neurons n_digits noise = Inr (w, prefs)"
  shows "square n_neurons w"
    and "length prefs = n_neurons"
    and "prefs = neuron_prefs n_digits (n_neurons div n_digits)"
    and "\<And>i j. i < n_neurons \<Longrightarrow> j < n_neurons \<Longrightarrow>
           weight_at noise (digit_dist t n_digits (prefs ! i) (prefs ! j)) (w ! i ! j)"
proof -
  let ?z = "replicate n_neurons (replicate n_neurons (0::real))"
  from run have pos: "n_digits \<noteq> 0"
    by (auto simp add: generate_topology_def split: if_splits)
  from run pos show prefs: "prefs = neuron_prefs n_digits (n_neurons div n_digits)"
    by (auto simp add: generate_topology_def Let_def split: sum.splits)
  from run pos prefs obtain k where
    loop: "outer_loop t n_digits prefs noise n_neurons [0..<n_neurons] (?z, 0) = Inr (w, k)"
    by (auto simp add: generate_topology_def Let_def split: sum.splits)
  from outer_loop_result [OF loop square_zeros]
  have sq: "square n_neurons w"
    and filled: "\<And>i j. i < n_neurons \<Longrightarrow> j < n_neurons \<Longrightarrow>
        weight_at noise (topo_dist t n_digits (prefs ! i) (prefs ! j)) (w ! i ! j)"
    and inside: "\<And>i. i < n_neurons \<Longrightarrow> i < length prefs"
    by auto
  from sq show "square n_neurons w" .
  show lp: "length prefs = n_neurons"
  proof (cases "n_neurons = 0")
    case True
    then show ?thesis by (simp add: prefs neuron_prefs_length)
  next
    case False
    then have "n_neurons - 1 < length prefs" by (intro inside) simp
    moreover have "length prefs \<le> n_neurons"
      by (simp add: prefs neuron_prefs_length)
    ultimately show ?thesis by simp
  qed
  fix i j
  assume i: "i < n_neurons" and j: "j < n_neurons"
  from i j lp have "prefs ! i \<in> set prefs" and "prefs ! j \<in> set prefs" by simp_all
  then have "0 \<le> prefs ! i" "prefs ! i < int n_digits" "0 \<le> prefs ! j" "prefs ! j < int n_digits"
    using neuron_prefs_range unfolding prefs by blast+
  with filled [OF i j]
  show "weight_at noise (digit_dist t n_digits (prefs ! i) (prefs ! j)) (w ! i ! j)"
    by (simp add: topo_dist_digit_dist)
qed

text \<open>
  Extra X2. \<^verbatim>\<open>generate_topology\<close> returns whenever the number of digits is positive
  and divides the number of neurons, and whenever it returns, the weights form a
  square matrix over the neurons in which the entry of neurons \<open>i\<close> and \<open>j\<close> is
  governed by the distance of their digits: the modular (wrap-around) distance for
  \<^verbatim>\<open>Ring\<close>, the absolute linear distance otherwise (\<^verbatim>\<open>Snake\<close>). That distance is
  symmetric in \<open>i\<close> and \<open>j\<close>, and both the entry \<open>(i, j)\<close> and the entry \<open>(j, i)\<close>
  are 1 plus a noise sample at distance 0, 0.5 plus a noise sample at distance 1, and
  exactly 0 at any other distance. So the matrix is symmetric up to the noise: when
  every sample is at most \<open>eps\<close> in absolute value, the two entries differ by at most
  \<open>2 * eps\<close>.
\<close>

theorem topology_weights:
  "(0 < n_digits \<and> n_digits dvd n_neurons \<longrightarrow>
      (\<exists>w prefs. generate_topology t n_neurons n_digits noise = Inr (w, prefs)))
   \<and> (\<forall>w prefs. generate_topology t n_neurons n_digits noise = Inr (w, prefs) \<longrightarrow>
         square n_neurons w \<and> length prefs = n_neurons
         \<and> (\<forall>i < n_neurons. \<forall>j < n_neurons.
               digit_dist t n_digits (prefs ! i) (prefs ! j)
                 = digit_dist t n_digits (prefs ! j) (prefs ! i)
             \<and> weight_at noise (digit_dist t n_digits (prefs ! i) (prefs ! j)) (w ! i ! j)
             \<and> weight_at noise (digit_dist t n_digits (prefs ! i) (prefs ! j)) (w ! j ! i)
             \<and> (\<forall>eps. (\<forall>k. \<bar>noise k\<bar> \<le> eps) \<longrightarrow> \<bar>w ! i ! j - w ! j ! i\<bar> \<le> 2 * eps)))"
proof (intro conjI allI impI)
  assume "0 < n_digits \<and> n_digits dvd n_neurons"
  then show "\<exists>w prefs. generate_topology t n_neurons n_digits noise = Inr (w, prefs)"
    by (simp add: generate_topology_returns)
next
  fix w prefs
  assume run: "generate_topology t n_neurons n_digits noise = Inr (w, prefs)"
  note res = generate_topology_result [OF run]
  from res(1) show "square n_neurons w" .
  from res(2) show "length prefs = n_neurons" .
  fix i j
  assume i: "i < n_neurons" and j: "j < n_neurons"
  let ?D = "digit_dist t n_digits (prefs ! i) (prefs ! j)"
  show "?D = digit_dist t n_digits (prefs ! j) (prefs ! i)"
    by (rule digit_dist_sym)
  from res(4) [OF i j] show ij: "weight_at noise ?D (w ! i ! j)" .
  from res(4) [OF j i] show ji: "weight_at noise ?D (w ! j ! i)"
    by (simp add: digit_dist_sym)
  fix eps
  assume "\<forall>k. \<bar>noise k\<bar> \<le> eps"
  with ij ji show "\<bar>w ! i ! j - w ! j ! i\<bar> \<le> 2 * eps"
    by (rule weight_at_close)
qed

theorem topology_weights_witness:
  "\<exists>w prefs.
     generate_topology ''Ring'' 6 3 (\<lambda>k. if even k then 1 / 20 else - (1 / 20)) = Inr (w, prefs)
     \<and> prefs = [0, 0, 1, 1, 2, 2]
     \<and> digit_dist ''Ring'' 3 (prefs ! 0) (prefs ! 5) = 1
     \<and> (\<exists>k::nat. w ! 0 ! 5 = 1 / 2 + (if even k then 1 / 20 else - (1 / 20)))
     \<and> \<bar>w ! 0 ! 5 - w ! 5 ! 0\<bar> \<le> 2 * (1 / 20)"
proof -
  let ?noise = "\<lambda>k::nat. if even k then 1 / 20 else - (1 / 20) :: real"
  note t = topology_weights [of 3 6 "''Ring''" ?noise]
  have "(0::nat) < 3 \<and> (3::nat) dvd 6" by simp
  with t obtain w prefs where run: "generate_topology ''Ring'' 6 3 ?noise = Inr (w, prefs)"
    by blast
  have "map_sum id snd (generate_topology ''Ring'' 6 3 ?noise) = Inr [0, 0, 1, 1, 2, 2]"
    by code_simp
  with run have prefs: "prefs = [0, 0, 1, 1, 2, 2]" by simp
  have far: "digit_dist ''Ring'' 3 (prefs ! 0) (prefs ! 5) = 1"
    unfolding prefs by code_simp
  have bound: "\<forall>k. \<bar>?noise k\<bar> \<le> 1 / 20" by simp
  have idx: "(0::nat) < 6" "(5::nat) < 6" by simp_all
  from t run have all: "\<forall>i < 6. \<forall>j < 6.
               digit_dist ''Ring'' 3 (prefs ! i) (prefs ! j)
                 = digit_dist ''Ring'' 3 (prefs ! j) (prefs ! i)
             \<and> weight_at ?noise (digit_dist ''Ring'' 3 (prefs ! i) (prefs ! j)) (w ! i ! j)
             \<and> weight_at ?noise (digit_dist ''Ring'' 3 (prefs ! i) (prefs ! j)) (w ! j ! i)
             \<and> (\<forall>eps. (\<forall>k. \<bar>?noise k\<bar> \<le> eps) \<longrightarrow> \<bar>w ! i ! j - w ! j ! i\<bar> \<le> 2 * eps)"
    by blast
  with idx bound have "weight_at ?noise (digit_dist ''Ring'' 3 (prefs ! 0) (prefs ! 5)) (w ! 0 ! 5)"
    and close: "\<bar>w ! 0 ! 5 - w ! 5 ! 0\<bar> \<le> 2 * (1 / 20)"
    by blast+
  with far have sample: "\<exists>k. w ! 0 ! 5 = 1 / 2 + ?noise k"
    by (simp add: weight_at_def)
  show ?thesis
  proof (rule exI, rule exI, intro conjI)
    show "generate_topology ''Ring'' 6 3 ?noise = Inr (w, prefs)" by (rule run)
    show "prefs = [0, 0, 1, 1, 2, 2]" by (rule prefs)
    show "digit_dist ''Ring'' 3 (prefs ! 0) (prefs ! 5) = 1" by (rule far)
    show "\<exists>k. w ! 0 ! 5 = 1 / 2 + ?noise k" by (rule sample)
    show "\<bar>w ! 0 ! 5 - w ! 5 ! 0\<bar> \<le> 2 * (1 / 20)" by (rule close)
  qed
qed

text \<open>
  When the number of digits does not divide the number of neurons, the last neurons have
  no preferred digit and reading it raises IndexError.
\<close>

lemma cell_error: "cell t d prefs noise i j st = Inl e \<Longrightarrow> e = IndexError"
  by (auto simp add: cell_def Let_def split: if_splits)

lemma inner_loop_error:
  "inner_loop t d prefs noise i js st = Inl e \<Longrightarrow> e = IndexError"
proof (induction js arbitrary: st)
  case Nil
  then show ?case by simp
next
  case (Cons j js)
  then show ?case
    by (auto split: sum.splits dest: cell_error)
qed

lemma outer_loop_error:
  "outer_loop t d prefs noise n is st = Inl e \<Longrightarrow> e = IndexError"
proof (induction "is" arbitrary: st)
  case Nil
  then show ?case by simp
next
  case (Cons i "is")
  then show ?case
    by (auto split: sum.splits dest: inner_loop_error)
qed

text \<open>
  Extra X1. With a positive number of digits that does not divide the number of
  neurons, \<^verbatim>\<open>generate_topology\<close> raises IndexError.
\<close>

theorem uneven_counts_raise:
  assumes "0 < n_digits" and "\<not> n_digits dvd n_neurons"
  shows "generate_topology t n_neurons n_digits noise = Inl IndexError"
proof (cases "generate_topology t n_neurons n_digits noise")
  case (Inl e)
  with assms(1) have "e = IndexError"
    by (auto simp add: generate_topology_def Let_def split: sum.splits dest: outer_loop_error)
  with Inl show ?thesis by simp
next
  case (Inr res)
  obtain w prefs where "res = (w, prefs)" by (cases res) auto
  with Inr have run: "generate_topology t n_neurons n_digits noise = Inr (w, prefs)" by simp
  from generate_topology_result(2,3) [OF run]
  have "n_digits * (n_neurons div n_digits) = n_neurons"
    by (simp add: neuron_prefs_length)
  then have "n_digits dvd n_neurons" by (metis dvd_triv_left)
  with assms(2) show ?thesis by simp
qed

theorem uneven_counts_raise_witness:
  "(0::nat) < 3 \<and> \<not> (3::nat) dvd 7 \<and> generate_topology ''Snake'' 7 3 (\<lambda>k. 0) = Inl IndexError"
  using uneven_counts_raise [of 3 7 "''Snake''" "\<lambda>k. 0"] by simp

lemma ring_6_3_entries:
  "map_sum id (\<lambda>res. (fst res ! 0 ! 1, fst res ! 1 ! 0, snd res ! 0, snd res ! 1))
     (generate_topology ''Ring'' 6 3 (\<lambda>k. real k / 100))
   = Inr (101 / 100, 106 / 100, 0, 0)"
  by code_simp

text \<open>
  Claim C1. The claim asks for a symmetric weight matrix, and the comment in the loop
  body calls the weights symmetric; the code does not return one. Every ordered pair
  of neurons takes a noise sample of its own and nothing makes the two entries of a
  pair equal: for \<^verbatim>\<open>Ring\<close> with 6 neurons and 3 digits and the samples 0, 0.01,
  0.02, ... the neurons 0 and 1, which prefer the same digit, get the weight 1.01 from
  0 to 1 and the weight 1.06 from 1 to 0.
\<close>

theorem topology_not_symmetric:
  "\<exists>w prefs.
     generate_topology ''Ring'' 6 3 (\<lambda>k. real k / 100) = Inr (w, prefs)
     \<and> prefs ! 0 = prefs ! 1
     \<and> w ! 0 ! 1 = 101 / 100 \<and> w ! 1 ! 0 = 106 / 100
     \<and> w ! 0 ! 1 \<noteq> w ! 1 ! 0"
proof (cases "generate_topology ''Ring'' 6 3 (\<lambda>k. real k / 100)")
  case (Inl e)
  with ring_6_3_entries show ?thesis by simp
next
  case (Inr res)
  obtain w prefs where "res = (w, prefs)" by (cases res) auto
  with Inr ring_6_3_entries
  have "generate_topology ''Ring'' 6 3 (\<lambda>k. real k / 100) = Inr (w, prefs)"
    and "w ! 0 ! 1 = 101 / 100" and "w ! 1 ! 0 = 106 / 100"
    and "prefs ! 0 = 0" and "prefs ! 1 = 0"
    by simp_all
  then show ?thesis by simp
qed

end
